theory Spec2Isabelle
  imports Main "HOL-Library.Char_ord" "HOL-Library.List_Lexorder"
begin

section \<open>Values and errors\<close>

text \<open>
  Python \<^verbatim>\<open>bytes\<close> and \<^verbatim>\<open>bytearray\<close> objects are lists of 8-bit characters.
  With \<^verbatim>\<open>Char_ord\<close> and \<^verbatim>\<open>List_Lexorder\<close> the order on them is Python's: bytes compare
  as unsigned numbers, sequences lexicographically, a proper prefix first.
\<close>

type_synonym bytes = string

text \<open>
  The exceptions raised in \<^verbatim>\<open>gentorrent.py\<close>, one constructor per raise site.
  \<^verbatim>\<open>bdecode\<close> raises \<^verbatim>\<open>ValueError\<close> with six different messages:
  "this is not a valid bencoded string" (\<open>NotBencodedString\<close>),
  "premature end of a bencoded string" (\<open>PrematureEnd\<close>),
  "this is not a valid bencoded int" (\<open>NotBencodedInt\<close>), "... dict" (\<open>NotBencodedDict\<close>),
  "... list" (\<open>NotBencodedList\<close>) and "this is not valid bencoded data" (\<open>NotBencodedData\<close>).
  \<^verbatim>\<open>bencode\<close> raises \<^verbatim>\<open>TypeError\<close> for a \<^verbatim>\<open>str\<close> (\<open>StrNotSupported\<close>) and for any other
  unsupported object (\<open>UnsupportedType\<close>); \<^verbatim>\<open>sorted\<close> raises it for keys that cannot be
  compared (\<open>Unorderable\<close>), and \<^verbatim>\<open>d[key] = value\<close> for a list or dict used as a key
  (\<open>Unhashable\<close>). \<open>IndexError\<close> is \<^verbatim>\<open>announce[0][0]\<close> on an empty tier, \<open>OSError\<close> a file
  that cannot be opened.
\<close>

datatype value_error =
    NotBencodedString | PrematureEnd | NotBencodedInt | NotBencodedDict
  | NotBencodedList | NotBencodedData

datatype type_error = StrNotSupported | UnsupportedType | Unorderable | Unhashable

datatype error = ValueError value_error | TypeError type_error | IndexError | OSError

text \<open>
  The objects \<^verbatim>\<open>bencode\<close> inspects and \<^verbatim>\<open>bdecode\<close> builds. \<open>PyStr\<close> is a text string,
  \<open>PyBencoded\<close> an instance of the marker classes \<^verbatim>\<open>Bencoded\<close>/\<^verbatim>\<open>BencodedArray\<close>, \<open>PyBytes\<close> a
  \<^verbatim>\<open>bytes\<close> or \<^verbatim>\<open>bytearray\<close>, \<open>PyOther\<close> any object none of the tests of \<^verbatim>\<open>bencode\<close>
  accepts (\<^verbatim>\<open>None\<close>, a float). A dict is the list of its items in insertion order; its keys
  are byte strings or integers, the two kinds of hashable object the decoder can produce.
\<close>

datatype pykey = is_KBytes: KBytes (un_KBytes: bytes) | is_KInt: KInt (un_KInt: int)

datatype pyval =
    PyStr string
  | PyBencoded bytes
  | PyBytes bytes
  | PyInt int
  | PyDict "(pykey \<times> pyval) list"
  | PyList "pyval list"
  | PyOther

section \<open>The codec\<close>

subsection \<open>Reading from the stream\<close>

text \<open>
  \<open>format_d\<close> is Python's \<^verbatim>\<open>"%d" % n\<close> and \<open>int_of_digit\<close> is \<^verbatim>\<open>int(current)\<close> on a
  one-byte digit string. The stream \<^verbatim>\<open>data\<close> (a \<^verbatim>\<open>BytesIO\<close>) is the list of the bytes not
  yet read: \<open>read1\<close> is \<^verbatim>\<open>data.read(1)\<close>, with \<open>None\<close> for the empty string returned at the
  end of the input, and \<open>read n\<close> is \<^verbatim>\<open>data.read(n)\<close>; both return what is left of the stream.
\<close>

definition digits :: bytes where
  "digits = ''0123456789''"

definition int_of_digit :: "char \<Rightarrow> nat" where
  "int_of_digit c = of_char c - 48"

definition digit_char :: "nat \<Rightarrow> char" where
  "digit_char d = digits ! d"

function format_nat :: "nat \<Rightarrow> bytes" where
  "format_nat n = (if n < 10 then [digit_char n] else format_nat (n div 10) @ [digit_char (n mod 10)])"
  by pat_completeness auto
termination
  by (relation "measure id") auto

declare format_nat.simps [simp del]

definition format_d :: "int \<Rightarrow> bytes" where
  "format_d i = (if i < 0 then CHR ''-'' # format_nat (nat (- i)) else format_nat (nat i))"


definition read1 :: "bytes \<Rightarrow> char option \<times> bytes" where
  "read1 data = (case data of [] \<Rightarrow> (None, []) | c # rest \<Rightarrow> (Some c, rest))"

definition read :: "nat \<Rightarrow> bytes \<Rightarrow> bytes \<times> bytes" where
  "read n data = (take n data, drop n data)"

text \<open>
  The loop \<^verbatim>\<open>while current and current in digits: n *= 10; n += int(current); current = data.read(1)\<close>
  that both the string and the integer branch of \<^verbatim>\<open>aux\<close> run.
\<close>

function digits_loop :: "nat \<Rightarrow> char option \<Rightarrow> bytes \<Rightarrow> nat \<times> char option \<times> bytes" where
  "digits_loop acc None data = (acc, None, data)"
| "digits_loop acc (Some c) data =
     (if c \<in> set digits
      then (case read1 data of (current, data') \<Rightarrow> digits_loop (acc * 10 + int_of_digit c) current data')
      else (acc, Some c, data))"
  by pat_completeness auto
termination
  by (relation "measure (\<lambda>(acc, cur, data). length data + (case cur of None \<Rightarrow> 0 | Some _ \<Rightarrow> 1))")
     (auto simp: read1_def split: list.splits)


subsection \<open>bdecode\<close>

text \<open>
  \<open>hashable\<close> is the check that \<^verbatim>\<open>d[key] = value\<close> makes on the key, and \<open>dict_setitem\<close> the
  assignment itself: a key already present keeps its position and takes the new value.
\<close>

fun hashable :: "pyval \<Rightarrow> error + pykey" where
  "hashable (PyBytes b) = Inr (KBytes b)"
| "hashable (PyBencoded b) = Inr (KBytes b)"
| "hashable (PyInt i) = Inr (KInt i)"
| "hashable _ = Inl (TypeError Unhashable)"

fun dict_setitem :: "(pykey \<times> pyval) list \<Rightarrow> pykey \<Rightarrow> pyval \<Rightarrow> (pykey \<times> pyval) list" where
  "dict_setitem [] k v = [(k, v)]"
| "dict_setitem ((k', v') # d) k v =
     (if k' = k then (k', v) # d else (k', v') # dict_setitem d k v)"


text \<open>
  The string branch (\<^verbatim>\<open>magic in digits\<close>) and the integer branch (\<^verbatim>\<open>magic == b'i'\<close>) of
  \<^verbatim>\<open>aux\<close>. The integer loop accepts digits only, so a minus sign ends it.
\<close>

definition aux_string :: "char \<Rightarrow> bytes \<Rightarrow> error + (pyval \<times> bytes)" where
  "aux_string magic data =
     (case digits_loop 0 (Some magic) data of
        (len, current, data1) \<Rightarrow>
          if current \<noteq> Some CHR '':'' then Inl (ValueError NotBencodedString)
          else (case read len data1 of
                  (s, data2) \<Rightarrow>
                    if length s \<noteq> len then Inl (ValueError PrematureEnd)
                    else Inr (PyBytes s, data2)))"

definition aux_int :: "bytes \<Rightarrow> error + (pyval \<times> bytes)" where
  "aux_int data =
     (case read1 data of
        (current0, data1) \<Rightarrow>
          (case digits_loop 0 current0 data1 of
             (i, current, data2) \<Rightarrow>
               if current \<noteq> Some CHR ''e'' then Inl (ValueError NotBencodedInt)
               else Inr (PyInt (int i), data2)))"

text \<open>
  \<^verbatim>\<open>aux(data, magic=None)\<close>. The first equation is \<^verbatim>\<open>if not magic: magic = data.read(1)\<close>; at the
  end of the input \<^verbatim>\<open>magic\<close> is the empty string, which Python finds \<^verbatim>\<open>in digits\<close>, and the
  string branch raises. \<open>aux_dict\<close> and \<open>aux_list\<close> are the two \<^verbatim>\<open>while current and current != b'e'\<close>
  loops with the test that follows them; their last argument is the dict or list built so far.
\<close>

function aux :: "bytes \<Rightarrow> char option \<Rightarrow> error + (pyval \<times> bytes)"
  and aux_dict :: "bytes \<Rightarrow> char option \<Rightarrow> (pykey \<times> pyval) list \<Rightarrow> error + (pyval \<times> bytes)"
  and aux_list :: "bytes \<Rightarrow> char option \<Rightarrow> pyval list \<Rightarrow> error + (pyval \<times> bytes)"
where
  "aux data None =
     (case read1 data of
        (None, data1) \<Rightarrow> Inl (ValueError NotBencodedString)
      | (Some magic, data1) \<Rightarrow> aux data1 (Some magic))"
| "aux data (Some magic) =
     (if magic \<in> set digits then aux_string magic data
      else if magic = CHR ''i'' then aux_int data
      else if magic = CHR ''d'' then
        (case read1 data of (current, data1) \<Rightarrow> aux_dict data1 current [])
      else if magic = CHR ''l'' then
        (case read1 data of (current, data1) \<Rightarrow> aux_list data1 current [])
      else Inl (ValueError NotBencodedData))"
| "aux_dict data None d = Inl (ValueError NotBencodedDict)"
| "aux_dict data (Some current) d =
     (if current = CHR ''e'' then Inr (PyDict d, data)
      else (case aux data (Some current) of
              Inl e \<Rightarrow> Inl e
            | Inr (key, data1) \<Rightarrow>
                (case aux data1 None of
                   Inl e \<Rightarrow> Inl e
                 | Inr (val, data2) \<Rightarrow>
                     (case hashable key of
                        Inl e \<Rightarrow> Inl e
                      | Inr k \<Rightarrow>
                          (case read1 data2 of
                             (current', data3) \<Rightarrow>
                               aux_dict data3 current' (dict_setitem d k val))))))"
| "aux_list data None l = Inl (ValueError NotBencodedList)"
| "aux_list data (Some current) l =
     (if current = CHR ''e'' then Inr (PyList l, data)
      else (case aux data (Some current) of
              Inl e \<Rightarrow> Inl e
            | Inr (elt, data1) \<Rightarrow>
                (case read1 data1 of
                   (current', data2) \<Rightarrow> aux_list data2 current' (l @ [elt]))))"
  by pat_completeness auto

text \<open>
  Termination: no call returns a longer stream than it was given, so the bytes still to be
  read (the stream and the byte held in \<^verbatim>\<open>magic\<close> or \<^verbatim>\<open>current\<close>) decrease.
\<close>

lemma read1_length: "read1 data = (current, data') \<Longrightarrow> length data' \<le> length data"
  by (cases data) (auto simp: read1_def)

lemma read1_pending:
  "read1 data = (current, data') \<Longrightarrow>
   length data' + (case current of None \<Rightarrow> 0 | Some _ \<Rightarrow> 1) = length data"
  by (cases data) (auto simp: read1_def)

lemma digits_loop_length:
  "digits_loop acc current data = (n, current', data') \<Longrightarrow> length data' \<le> length data"
proof (induction acc current data rule: digits_loop.induct)
  case (1 acc data)
  then show ?case by simp
next
  case (2 acc c data)
  show ?case
  proof (cases "c \<in> set digits")
    case True
    obtain cur d1 where r: "read1 data = (cur, d1)" by (cases "read1 data")
    from 2(2) True r have "digits_loop (acc * 10 + int_of_digit c) cur d1 = (n, current', data')"
      by simp
    from 2(1)[OF True r[symmetric] this] read1_length[OF r] show ?thesis by simp
  next
    case False
    with 2(2) show ?thesis by simp
  qed
qed

lemma aux_string_length:
  assumes "aux_string magic data = Inr (v, rest)"
  shows "length rest \<le> length data"
proof -
  obtain len current data1 where d: "digits_loop 0 (Some magic) data = (len, current, data1)"
    by (cases "digits_loop 0 (Some magic) data")
  from assms d have "rest = drop len data1"
    by (auto simp: aux_string_def read_def split: if_splits)
  with digits_loop_length[OF d] show ?thesis by simp
qed

lemma aux_int_length:
  assumes "aux_int data = Inr (v, rest)"
  shows "length rest \<le> length data"
proof -
  obtain current0 data1 where r: "read1 data = (current0, data1)" by (cases "read1 data")
  obtain i current data2 where d: "digits_loop 0 current0 data1 = (i, current, data2)"
    by (cases "digits_loop 0 current0 data1")
  from assms r d have "rest = data2"
    by (auto simp: aux_int_def split: if_splits)
  with digits_loop_length[OF d] read1_length[OF r] show ?thesis by simp
qed

lemma aux_length_partial:
  shows "aux_aux_dict_aux_list_dom (Inl (data, magic0)) \<Longrightarrow>
      aux data magic0 = Inr (v, rest) \<Longrightarrow> length rest \<le> length data"
  and "aux_aux_dict_aux_list_dom (Inr (Inl (data', current, d))) \<Longrightarrow>
      aux_dict data' current d = Inr (v', rest') \<Longrightarrow> length rest' \<le> length data'"
  and "aux_aux_dict_aux_list_dom (Inr (Inr (data'', current', l))) \<Longrightarrow>
      aux_list data'' current' l = Inr (v'', rest'') \<Longrightarrow> length rest'' \<le> length data''"
proof (induct arbitrary: v rest and v' rest' and v'' rest'' rule: aux_aux_dict_aux_list.pinduct)
  case (1 data)
  obtain cur d1 where r: "read1 data = (cur, d1)" by (cases "read1 data")
  from 1(3) r obtain m where m: "cur = Some m" "aux d1 (Some m) = Inr (v, rest)"
    by (auto simp: aux.psimps(1)[OF 1(1)] split: option.splits)
  from 1(2)[OF r[symmetric] m(1) m(2)] read1_length[OF r] show ?case by simp
next
  case (2 data magic)
  note dom = 2(1) and eq = 2(4)
  obtain cur d1 where r: "read1 data = (cur, d1)" by (cases "read1 data")
  consider (s) "magic \<in> set digits"
    | (i) "magic \<notin> set digits" "magic = CHR ''i''"
    | (d) "magic \<notin> set digits" "magic \<noteq> CHR ''i''" "magic = CHR ''d''"
    | (l) "magic \<notin> set digits" "magic \<noteq> CHR ''i''" "magic \<noteq> CHR ''d''" "magic = CHR ''l''"
    | (o) "magic \<notin> set digits" "magic \<noteq> CHR ''i''" "magic \<noteq> CHR ''d''" "magic \<noteq> CHR ''l''"
    by blast
  then show ?case
  proof cases
    case s
    with eq[unfolded aux.psimps(2)[OF dom]] have "aux_string magic data = Inr (v, rest)" by simp
    then show ?thesis by (rule aux_string_length)
  next
    case i
    with eq[unfolded aux.psimps(2)[OF dom]] have "aux_int data = Inr (v, rest)" by simp
    then show ?thesis by (rule aux_int_length)
  next
    case d
    with eq[unfolded aux.psimps(2)[OF dom]] r have "aux_dict d1 cur [] = Inr (v, rest)" by simp
    from 2(2)[OF d r[symmetric] this] read1_length[OF r] show ?thesis by simp
  next
    case l
    with eq[unfolded aux.psimps(2)[OF dom]] r have "aux_list d1 cur [] = Inr (v, rest)" by simp
    from 2(3)[OF l r[symmetric] this] read1_length[OF r] show ?thesis by simp
  next
    case o
    with eq[unfolded aux.psimps(2)[OF dom]] show ?thesis by simp
  qed
next
  case (3 data d)
  then show ?case by (simp add: aux_dict.psimps(1))
next
  case (4 data current d)
  note dom = 4(1) and eq = 4(5)
  show ?case
  proof (cases "current = CHR ''e''")
    case True
    with eq[unfolded aux_dict.psimps(2)[OF dom]] show ?thesis by simp
  next
    case False
    from eq False obtain key data1 where k: "aux data (Some current) = Inr (key, data1)"
      unfolding aux_dict.psimps(2)[OF dom] by (auto split: sum.splits)
    from eq False k obtain val data2 where w: "aux data1 None = Inr (val, data2)"
      unfolding aux_dict.psimps(2)[OF dom] by (auto split: sum.splits)
    from eq False k w obtain kk where h: "hashable key = Inr kk"
      unfolding aux_dict.psimps(2)[OF dom] by (auto split: sum.splits)
    obtain cur d3 where r: "read1 data2 = (cur, d3)" by (cases "read1 data2")
    from eq False k w h r have rec: "aux_dict d3 cur (dict_setitem d kk val) = Inr (v', rest')"
      unfolding aux_dict.psimps(2)[OF dom] by simp
    have 1: "length data1 \<le> length data" by (rule 4(2)[OF False k])
    have 2: "length data2 \<le> length data1" by (rule 4(3)[OF False k refl w])
    have 3: "length rest' \<le> length d3"
      by (rule 4(4)[OF False k refl w refl h r[symmetric] rec])
    from 1 2 3 read1_length[OF r] show ?thesis by simp
  qed
next
  case (5 data l)
  then show ?case by (simp add: aux_list.psimps(1))
next
  case (6 data current l)
  note dom = 6(1) and eq = 6(4)
  show ?case
  proof (cases "current = CHR ''e''")
    case True
    with eq[unfolded aux_list.psimps(2)[OF dom]] show ?thesis by simp
  next
    case False
    from eq False obtain elt data1 where k: "aux data (Some current) = Inr (elt, data1)"
      unfolding aux_list.psimps(2)[OF dom] by (auto split: sum.splits)
    obtain cur d2 where r: "read1 data1 = (cur, d2)" by (cases "read1 data1")
    from eq False k r have rec: "aux_list d2 cur (l @ [elt]) = Inr (v'', rest'')"
      unfolding aux_list.psimps(2)[OF dom] by simp
    have 1: "length data1 \<le> length data" by (rule 6(2)[OF False k])
    have 3: "length rest'' \<le> length d2"
      by (rule 6(3)[OF False k refl r[symmetric] rec])
    from 1 3 read1_length[OF r] show ?thesis by simp
  qed
qed

termination aux
proof (relation "measure (\<lambda>x. case x of
        Inl (data, magic) \<Rightarrow> 3 * (length data + (case magic of None \<Rightarrow> 0 | Some _ \<Rightarrow> 1))
                              + (case magic of None \<Rightarrow> 1 | Some _ \<Rightarrow> 0)
      | Inr (Inl (data, current, d)) \<Rightarrow>
          3 * (length data + (case current of None \<Rightarrow> 0 | Some _ \<Rightarrow> 1)) + 2
      | Inr (Inr (data, current, l)) \<Rightarrow>
          3 * (length data + (case current of None \<Rightarrow> 0 | Some _ \<Rightarrow> 1)) + 2)", goal_cases)
  case 1
  show ?case by simp
next
  case (2 data x y x2)
  then show ?case using read1_pending[of data x y] by auto
next
  case (3 data magic x y)
  then show ?case using read1_pending[of data x y] by (auto split: option.splits)
next
  case (4 data magic x y)
  then show ?case using read1_pending[of data x y] by (auto split: option.splits)
next
  case (5 data current d)
  then show ?case by simp
next
  case (6 data current d b x y)
  then show ?case using aux_length_partial(1)[of data "Some current" x y] by auto
next
  case (7 data current d b x y ba xa ya bb xb yb)
  then show ?case
    using aux_length_partial(1)[of data "Some current" x y]
      aux_length_partial(1)[of y None xa ya] read1_pending[of ya xb yb]
    by (auto split: option.splits)
next
  case (8 data current l)
  then show ?case by simp
next
  case (9 data current l b x y xa ya)
  then show ?case
    using aux_length_partial(1)[of data "Some current" x y] read1_pending[of y xa ya]
    by (auto split: option.splits)
qed


text \<open>
  \<^verbatim>\<open>bdecode(data, offset=0)\<close> wraps the bytes in a \<^verbatim>\<open>BytesIO\<close> and returns \<^verbatim>\<open>aux(data)\<close>: the
  value alone. The parameter \<^verbatim>\<open>offset\<close> is never used in the body.
\<close>

definition bdecode :: "bytes \<Rightarrow> nat \<Rightarrow> error + pyval" where
  "bdecode data offset = (case aux data None of Inl e \<Rightarrow> Inl e | Inr (v, rest) \<Rightarrow> Inr v)"


subsection \<open>bencode\<close>

text \<open>
  \<open>sorted_items\<close> is \<^verbatim>\<open>sorted(data.keys())\<close>, each key with \<^verbatim>\<open>data[key]\<close>: byte strings sort
  among themselves and integers among themselves, and comparing one with the other raises.
  \<^verbatim>\<open>bencode(data, buf=None)\<close> appends to \<^verbatim>\<open>buf\<close> and returns it; an absent or empty \<^verbatim>\<open>buf\<close> is
  replaced by a new empty array, which the empty list stands for. \<open>bencode_items\<close> and
  \<open>bencode_elts\<close> are the two \<^verbatim>\<open>for\<close> loops.
\<close>

fun key_val :: "pykey \<Rightarrow> pyval" where
  "key_val (KBytes b) = PyBytes b"
| "key_val (KInt i) = PyInt i"

definition sorted_items :: "(pykey \<times> pyval) list \<Rightarrow> error + (pykey \<times> pyval) list" where
  "sorted_items kvs =
     (if list_all (is_KBytes \<circ> fst) kvs then Inr (sort_key (un_KBytes \<circ> fst) kvs)
      else if list_all (is_KInt \<circ> fst) kvs then Inr (sort_key (un_KInt \<circ> fst) kvs)
      else Inl (TypeError Unorderable))"

function bencode :: "pyval \<Rightarrow> bytes \<Rightarrow> error + bytes"
  and bencode_items :: "(pykey \<times> pyval) list \<Rightarrow> bytes \<Rightarrow> error + bytes"
  and bencode_elts :: "pyval list \<Rightarrow> bytes \<Rightarrow> error + bytes"
where
  "bencode (PyStr s) buf = Inl (TypeError StrNotSupported)"
| "bencode (PyBencoded b) buf = Inr (buf @ b)"
| "bencode (PyBytes b) buf = Inr (buf @ format_d (int (length b)) @ '':'' @ b)"
| "bencode (PyInt i) buf = Inr (buf @ ''i'' @ format_d i @ ''e'')"
| "bencode (PyDict kvs) buf =
     (case sorted_items kvs of
        Inl e \<Rightarrow> Inl e
      | Inr items \<Rightarrow>
          (case bencode_items items (buf @ ''d'') of
             Inl e \<Rightarrow> Inl e
           | Inr buf' \<Rightarrow> Inr (buf' @ ''e'')))"
| "bencode (PyList l) buf =
     (case bencode_elts l (buf @ ''l'') of
        Inl e \<Rightarrow> Inl e
      | Inr buf' \<Rightarrow> Inr (buf' @ ''e''))"
| "bencode PyOther buf = Inl (TypeError UnsupportedType)"
| "bencode_items [] buf = Inr buf"
| "bencode_items ((key, v) # items) buf =
     (case bencode (key_val key) buf of
        Inl e \<Rightarrow> Inl e
      | Inr buf1 \<Rightarrow>
          (case bencode v buf1 of
             Inl e \<Rightarrow> Inl e
           | Inr buf2 \<Rightarrow> bencode_items items buf2))"
| "bencode_elts [] buf = Inr buf"
| "bencode_elts (elt # l) buf =
     (case bencode elt buf of
        Inl e \<Rightarrow> Inl e
      | Inr buf1 \<Rightarrow> bencode_elts l buf1)"
  by pat_completeness auto


lemma size_list_insort_key:
  "size_list f (insort_key g x xs) = Suc (f x + size_list f xs)"
  by (induction xs) auto

lemma size_list_sort_key: "size_list f (sort_key g xs) = size_list f xs"
  by (induction xs) (auto simp: size_list_insort_key)

lemma size_key_val [simp]: "size (key_val key) = 0"
  by (cases key) auto

termination bencode
  by (relation "measure (\<lambda>x. case x of
        Inl (v, buf) \<Rightarrow> size v
      | Inr (Inl (items, buf)) \<Rightarrow> size_list (size_prod (\<lambda>_. 0) size) items
      | Inr (Inr (l, buf)) \<Rightarrow> size_list size l)")
    (auto simp: sorted_items_def size_list_sort_key size_key_val split: if_splits)

subsection \<open>The values the format describes\<close>

text \<open>
  \<open>constructible\<close> holds of the trees built from byte strings, integers, lists and dicts
  with byte-string keys (each key once, as in any dict); \<open>nonneg\<close> of those whose integers
  are all non-negative. \<open>py_eq\<close> is Python's \<^verbatim>\<open>==\<close> on these objects: two dicts are equal when
  they have as many items and every key of the first has an equal value in the second,
  whatever the insertion order. \<open>canon v\<close> is \<open>v\<close> with the items of every dict in key order,
  and \<open>enc v\<close> the encoding of a constructible \<open>v\<close> written as one expression; both are used
  to state what the decoder returns. \<open>digit_step\<close> is one round of \<open>digits_loop\<close>.
\<close>

definition digit_step :: "char \<Rightarrow> nat \<Rightarrow> nat" where
  "digit_step c acc = acc * 10 + int_of_digit c"

fun constructible :: "pyval \<Rightarrow> bool" where
  "constructible (PyBytes b) = True"
| "constructible (PyInt i) = True"
| "constructible (PyList l) = list_all constructible l"
| "constructible (PyDict kvs) =
     (list_all (is_KBytes \<circ> fst) kvs \<and> distinct (map fst kvs) \<and>
      list_all (\<lambda>(k, v). constructible v) kvs)"
| "constructible _ = False"

fun nonneg :: "pyval \<Rightarrow> bool" where
  "nonneg (PyInt i) = (0 \<le> i)"
| "nonneg (PyList l) = list_all nonneg l"
| "nonneg (PyDict kvs) = list_all (\<lambda>(k, v). nonneg v) kvs"
| "nonneg _ = True"

fun canon :: "pyval \<Rightarrow> pyval" where
  "canon (PyList l) = PyList (map canon l)"
| "canon (PyDict kvs) =
     PyDict (sort_key (un_KBytes \<circ> fst) (map (\<lambda>(k, v). (k, canon v)) kvs))"
| "canon v = v"

fun enc :: "pyval \<Rightarrow> bytes" where
  "enc (PyBytes b) = format_nat (length b) @ '':'' @ b"
| "enc (PyInt i) = ''i'' @ format_d i @ ''e''"
| "enc (PyList l) = ''l'' @ concat (map enc l) @ ''e''"
| "enc (PyDict kvs) =
     ''d'' @ concat (map (\<lambda>(k, v). enc (key_val k) @ enc v) (sort_key (un_KBytes \<circ> fst) kvs)) @ ''e''"
| "enc _ = []"

fun py_eq :: "pyval \<Rightarrow> pyval \<Rightarrow> bool" where
  "py_eq (PyStr a) (PyStr b) = (a = b)"
| "py_eq (PyBencoded a) (PyBencoded b) = (a = b)"
| "py_eq (PyBencoded a) (PyBytes b) = (a = b)"
| "py_eq (PyBytes a) (PyBencoded b) = (a = b)"
| "py_eq (PyBytes a) (PyBytes b) = (a = b)"
| "py_eq (PyInt a) (PyInt b) = (a = b)"
| "py_eq (PyList a) (PyList b) = list_all2 py_eq a b"
| "py_eq (PyDict a) (PyDict b) =
     (length a = length b \<and>
      list_all (\<lambda>(k, v). case map_of b k of None \<Rightarrow> False | Some w \<Rightarrow> py_eq v w) a)"
| "py_eq PyOther PyOther = True"
| "py_eq _ _ = False"

section \<open>Building the metainfo\<close>

subsection \<open>Digests\<close>

text \<open>
  \<^verbatim>\<open>hashlib.sha1\<close> is a parameter of the model: any function from byte strings to digests.
  A SHA-1 digest is 20 bytes long, which the type \<open>digest\<close> records; \<open>Rep_digest\<close> gives
  its bytes (\<^verbatim>\<open>.digest()\<close>) and \<open>hexlify\<close> of them is \<^verbatim>\<open>.hexdigest()\<close>. \<open>zero_digest\<close> is
  \<^verbatim>\<open>20 * b"\0"\<close>.
\<close>

typedef digest = "{bs :: char list. length bs = 20}"
  by (rule exI[of _ "replicate 20 (CHR 0x00)"]) simp

setup_lifting type_definition_digest

lift_definition zero_digest :: digest is "replicate 20 (CHR 0x00)"
  by simp

type_synonym hash = "bytes \<Rightarrow> digest"

definition hexdigits :: string where
  "hexdigits = ''0123456789abcdef''"

definition hex_byte :: "char \<Rightarrow> string" where
  "hex_byte c = [hexdigits ! (of_char c div 16), hexdigits ! (of_char c mod 16)]"

definition hexlify :: "bytes \<Rightarrow> string" where
  "hexlify bs = concat (map hex_byte bs)"

subsection \<open>Hashing the pieces\<close>

text \<open>
  An open file is the list of its bytes not yet read, and \<open>f_read n\<close> is \<^verbatim>\<open>f.read(n)\<close>: at most
  \<open>n\<close> bytes, or everything that is left when \<open>n\<close> is negative. \<open>hash_single_file\<close> is the
  \<^verbatim>\<open>while True\<close> loop of the single-file branch of \<^verbatim>\<open>Metainfo.__init__\<close> and \<open>hash_dir_file\<close>
  the one of the directory branch, run on one file; \<^verbatim>\<open>incomplete_chunk\<close> is carried from one
  file to the next. The MD5 object is the list of the bytes it was updated with, \<open>None\<close> when
  \<^verbatim>\<open>md5sum\<close> is false.
\<close>

definition f_read :: "int \<Rightarrow> bytes \<Rightarrow> bytes \<times> bytes" where
  "f_read n f = (if n < 0 then (f, []) else (take (nat n) f, drop (nat n) f))"

function hash_single_file ::
  "hash \<Rightarrow> int \<Rightarrow> bytes \<Rightarrow> bytes \<Rightarrow> bytes option \<Rightarrow> bytes \<times> bytes option" where
  "hash_single_file sha1 piece_length f pieces md5sum =
     (case f_read piece_length f of
        (chunk, f') \<Rightarrow>
          if length chunk = 0 then (pieces, md5sum)
          else if int (length chunk) < piece_length
            then (pieces @ Rep_digest (sha1 chunk), map_option (\<lambda>m. m @ chunk) md5sum)
            else hash_single_file sha1 piece_length f' (pieces @ Rep_digest (sha1 chunk))
                   (map_option (\<lambda>m. m @ chunk) md5sum))"
  by pat_completeness auto
termination
  by (relation "measure (\<lambda>(sha1, piece_length, f, pieces, md5sum). length f)")
     (auto simp: f_read_def split: if_splits)

declare hash_single_file.simps [simp del]

function hash_dir_file ::
  "hash \<Rightarrow> int \<Rightarrow> bytes \<Rightarrow> bytes \<Rightarrow> bytes \<Rightarrow> bytes option \<Rightarrow> bytes \<times> bytes \<times> bytes option" where
  "hash_dir_file sha1 piece_length f pieces incomplete_chunk md5sum =
     (case f_read (piece_length - int (length incomplete_chunk)) f of
        (chunk, f') \<Rightarrow>
          if length chunk = 0 then (pieces, incomplete_chunk, md5sum)
          else if int (length incomplete_chunk) + int (length chunk) < piece_length
            then (pieces, incomplete_chunk @ chunk, map_option (\<lambda>m. m @ chunk) md5sum)
            else hash_dir_file sha1 piece_length f'
                   (pieces @ Rep_digest (sha1 (incomplete_chunk @ chunk))) []
                   (map_option (\<lambda>m. m @ chunk) md5sum))"
  by pat_completeness auto
termination
  by (relation "measure (\<lambda>(sha1, piece_length, f, pieces, incomplete_chunk, md5sum). length f)")
     (auto simp: f_read_def split: if_splits)

declare hash_dir_file.simps [simp del]

text \<open>
  What the builder sees of the file system: a regular file with its bytes and whether
  \<^verbatim>\<open>open(..., 'rb')\<close> succeeds on it, or a directory, given as the files \<^verbatim>\<open>os.walk\<close> lists
  under it in the order it lists them, each with the components of its path relative to the
  directory. \<open>hash_dir\<close> is the \<^verbatim>\<open>for\<close> loop over these files; \<open>file_dict\<close> is \<^verbatim>\<open>filedict\<close>
  before the MD5 sum is added.
\<close>

datatype regfile = RegFile (content: bytes) (readable: bool)

datatype node = FileNode regfile | DirNode "(bytes list \<times> regfile) list"

definition file_dict :: "bytes list \<Rightarrow> regfile \<Rightarrow> (pykey \<times> pyval) list" where
  "file_dict relpath fl =
     dict_setitem (dict_setitem [] (KBytes ''path'') (PyList (map PyBytes relpath)))
       (KBytes ''length'') (PyInt (int (length (content fl))))"

fun hash_dir ::
  "hash \<Rightarrow> (bytes \<Rightarrow> bytes) \<Rightarrow> int \<Rightarrow> bool \<Rightarrow> (bytes list \<times> regfile) list \<Rightarrow>
   pyval list \<Rightarrow> bytes \<Rightarrow> bytes \<Rightarrow> error + (pyval list \<times> bytes \<times> bytes)" where
  "hash_dir sha1 md5_hexdigest piece_length md5sum [] files pieces incomplete_chunk =
     Inr (files, pieces, incomplete_chunk)"
| "hash_dir sha1 md5_hexdigest piece_length md5sum ((relpath, fl) # walk) files pieces incomplete_chunk =
     (if \<not> readable fl then Inl OSError
      else (case hash_dir_file sha1 piece_length (content fl) pieces incomplete_chunk
                  (if md5sum then Some [] else None) of
              (pieces', incomplete_chunk', md5sum') \<Rightarrow>
                hash_dir sha1 md5_hexdigest piece_length md5sum walk
                  (files @ [PyDict (case md5sum' of
                                      None \<Rightarrow> file_dict relpath fl
                                    | Some m \<Rightarrow> dict_setitem (file_dict relpath fl)
                                                 (KBytes ''md5sum'') (PyBytes (md5_hexdigest m)))])
                  pieces' incomplete_chunk'))"

subsection \<open>The Merkle root\<close>

text \<open>
  \<open>py_range stop 20\<close> is \<^verbatim>\<open>range(0, stop, 20)\<close>, and \<open>hash_pairs\<close> the loop
  \<^verbatim>\<open>for i in range(0, len(pieces) // 2, 20): pieces[i:i + 20] = sha1(pieces[2*i:2*i + 40]).digest()\<close>
  that overwrites the array in place. \<open>merkle_loop\<close> is the \<^verbatim>\<open>while len(pieces) > 20\<close> loop;
  its last argument counts the executions of the loop body (the source has no such
  variable; it is there to state how often the body runs).
\<close>

definition py_range :: "nat \<Rightarrow> nat \<Rightarrow> nat list" where
  "py_range stop step = map (\<lambda>k. step * k) [0 ..< (stop + step - 1) div step]"

fun hash_pairs :: "hash \<Rightarrow> bytes \<Rightarrow> nat list \<Rightarrow> bytes" where
  "hash_pairs sha1 pieces [] = pieces"
| "hash_pairs sha1 pieces (i # is) =
     hash_pairs sha1
       (take i pieces @ Rep_digest (sha1 (take 40 (drop (2 * i) pieces))) @ drop (i + 20) pieces) is"


lemma hash_pairs_length:
  "\<forall>i \<in> set is. i + 20 \<le> length pieces \<Longrightarrow> length (hash_pairs sha1 pieces is) = length pieces"
proof (induction "is" arbitrary: pieces)
  case Nil
  then show ?case by simp
next
  case (Cons i "is")
  let ?p = "take i pieces @ Rep_digest (sha1 (take 40 (drop (2 * i) pieces))) @ drop (i + 20) pieces"
  have d: "length (Rep_digest (sha1 (take 40 (drop (2 * i) pieces)))) = 20"
    using Rep_digest[of "sha1 (take 40 (drop (2 * i) pieces))"] by simp
  from Cons.prems have "i + 20 \<le> length pieces" by simp
  with d have l: "length ?p = length pieces" by simp
  with Cons.prems have "\<forall>i \<in> set is. i + 20 \<le> length ?p" by simp
  from Cons.IH[OF this] l show ?case by simp
qed

lemma py_range_bound: "i \<in> set (py_range stop 20) \<Longrightarrow> i < stop"
  by (auto simp: py_range_def)

function merkle_loop :: "hash \<Rightarrow> bytes \<Rightarrow> digest \<Rightarrow> nat \<Rightarrow> bytes \<times> nat" where
  "merkle_loop sha1 pieces padding rounds =
     (if length pieces > 20 then
        (let pieces1 = (if length pieces mod 40 \<noteq> 0 then pieces @ Rep_digest padding else pieces);
             pieces2 = hash_pairs sha1 pieces1 (py_range (length pieces1 div 2) 20);
             pieces3 = take (length pieces2 div 2) pieces2
         in merkle_loop sha1 pieces3 (sha1 (Rep_digest padding @ Rep_digest padding)) (Suc rounds))
      else (pieces, rounds))"
  by pat_completeness auto

lemma merkle_round_length:
  assumes "length pieces > 20"
    and "pieces1 = (if length pieces mod 40 \<noteq> 0 then pieces @ Rep_digest padding else pieces)"
  shows "length (hash_pairs sha1 pieces1 (py_range (length pieces1 div 2) 20)) = length pieces1"
    and "length pieces1 \<le> length pieces + 20" and "40 \<le> length pieces1"
proof -
  have p: "length (Rep_digest padding) = 20" using Rep_digest[of padding] by simp
  from assms p show 2: "length pieces1 \<le> length pieces + 20" by (simp split: if_splits)
  from assms p show 3: "40 \<le> length pieces1" by (auto split: if_splits)
  have "\<forall>i \<in> set (py_range (length pieces1 div 2) 20). i + 20 \<le> length pieces1"
    using 3 by (auto dest!: py_range_bound)
  then show "length (hash_pairs sha1 pieces1 (py_range (length pieces1 div 2) 20)) = length pieces1"
    by (rule hash_pairs_length)
qed

termination merkle_loop
proof (relation "measure (\<lambda>(sha1, pieces, padding, rounds). length pieces)", goal_cases)
  case 1
  show ?case by simp
next
  case (2 sha1 pieces padding rounds x xa xb)
  from merkle_round_length(1)[OF 2(1) 2(2), of sha1] merkle_round_length(2)[OF 2(1) 2(2)] 2
  show ?case by simp
qed

declare merkle_loop.simps [simp del]

subsection \<open>Metainfo\<close>

text \<open>
  \<open>options\<close> are the keyword arguments of \<^verbatim>\<open>Metainfo.__init__\<close>, \<open>world\<close> what the call
  depends on besides its arguments: the two hash functions, the clock, the file system and
  \<^verbatim>\<open>path.basename(path.normpath(...))\<close>. A \<open>metainfo\<close> is the dict itself (\<open>mi_items\<close>)
  with the attributes set at the end of \<^verbatim>\<open>__init__\<close>; \<open>mi_info\<close> is the dict stored under
  \<^verbatim>\<open>b"info"\<close>. \<open>build_top\<close> is the part of \<^verbatim>\<open>__init__\<close> before the comment "Now we build the
  info dictionnary", \<open>build_info\<close> the part after it: \<open>info_head\<close> the first entries,
  \<open>hash_content\<close> the reading of the file or the directory. \<open>truthy\<close> is the test \<^verbatim>\<open>if x:\<close> on a value that is \<^verbatim>\<open>None\<close> or a sequence.
\<close>

record options =
  opt_announce :: "bytes list list option"
  opt_nodes :: "(bytes \<times> int) list option"
  opt_httpseeds :: "bytes list option"
  opt_url_list :: "bytes list option"
  opt_comment :: "bytes option"
  opt_piece_length :: int
  opt_private :: bool
  opt_md5sum :: bool
  opt_merkle :: bool

record world =
  w_sha1 :: hash
  w_md5_hexdigest :: "bytes \<Rightarrow> bytes"
  w_time :: int
  w_basename_normpath :: "bytes \<Rightarrow> bytes"
  w_fs :: "bytes \<Rightarrow> node option"

record metainfo =
  mi_items :: "(pykey \<times> pyval) list"
  mi_announce :: "bytes list list option"
  mi_nodes :: "(bytes \<times> int) list option"
  mi_httpseeds :: "bytes list option"
  mi_url_list :: "bytes list option"
  mi_info :: "(pykey \<times> pyval) list"
  mi_infohash :: "string option"
  mi_name :: bytes
  mi_length :: "int option"

definition truthy :: "'a list option \<Rightarrow> bool" where
  "truthy x = (case x of None \<Rightarrow> False | Some l \<Rightarrow> l \<noteq> [])"

definition fullname :: bytes where
  "fullname = ''gentorrent 1.0''"

definition set_announce :: "bytes list list option \<Rightarrow> (pykey \<times> pyval) list \<Rightarrow> error + (pykey \<times> pyval) list" where
  "set_announce announce self =
     (case announce of
        Some (tier # tiers) \<Rightarrow>
          (case tier of
             [] \<Rightarrow> Inl IndexError
           | url # urls \<Rightarrow>
               Inr (let self1 = dict_setitem self (KBytes ''announce'') (PyBytes url)
                    in if length tier > 1 \<or> length (tier # tiers) > 1
                       then dict_setitem self1 (KBytes ''announce-list'')
                              (PyList (map (\<lambda>t. PyList (map PyBytes t)) (tier # tiers)))
                       else self1))
      | _ \<Rightarrow> Inr self)"

definition set_optional :: "bytes \<Rightarrow> 'a list option \<Rightarrow> ('a list \<Rightarrow> pyval) \<Rightarrow> (pykey \<times> pyval) list \<Rightarrow> (pykey \<times> pyval) list" where
  "set_optional key x to_val self = (if truthy x then dict_setitem self (KBytes key) (to_val (the x)) else self)"

definition build_top :: "int \<Rightarrow> options \<Rightarrow> error + (pykey \<times> pyval) list" where
  "build_top now opts =
     (case set_announce (opt_announce opts) [] of
        Inl e \<Rightarrow> Inl e
      | Inr self1 \<Rightarrow>
          Inr (let self2 = set_optional ''nodes'' (opt_nodes opts)
                             (\<lambda>ns. PyList (map (\<lambda>(address, port). PyList [PyBytes address, PyInt port]) ns)) self1;
                   self3 = set_optional ''httpseeds'' (opt_httpseeds opts) (\<lambda>l. PyList (map PyBytes l)) self2;
                   self4 = set_optional ''url-list'' (opt_url_list opts) (\<lambda>l. PyList (map PyBytes l)) self3;
                   self5 = dict_setitem self4 (KBytes ''creation date'') (PyInt now);
                   self6 = set_optional ''comment'' (opt_comment opts) PyBytes self5
               in dict_setitem self6 (KBytes ''created by'') (PyBytes fullname)))"

definition info_head :: "bytes \<Rightarrow> options \<Rightarrow> (pykey \<times> pyval) list" where
  "info_head name opts =
     (let info1 = dict_setitem [] (KBytes ''piece length'') (PyInt (opt_piece_length opts));
          info2 = (if opt_private opts then dict_setitem info1 (KBytes ''private'') (PyInt 1) else info1)
      in dict_setitem info2 (KBytes ''name'') (PyBytes name))"

definition hash_content ::
  "world \<Rightarrow> bytes \<Rightarrow> options \<Rightarrow> (pykey \<times> pyval) list \<Rightarrow> error + ((pykey \<times> pyval) list \<times> bytes)" where
  "hash_content w filename opts info =
     (case w_fs w filename of
        Some (FileNode fl) \<Rightarrow>
          (let info1 = dict_setitem info (KBytes ''length'') (PyInt (int (length (content fl))))
           in if \<not> readable fl then Inl OSError
              else (case hash_single_file (w_sha1 w) (opt_piece_length opts) (content fl) []
                          (if opt_md5sum opts then Some [] else None) of
                      (pieces, md5sum) \<Rightarrow>
                        Inr (case md5sum of
                               None \<Rightarrow> info1
                             | Some m \<Rightarrow> dict_setitem info1 (KBytes ''md5sum'')
                                          (PyBytes (w_md5_hexdigest w m)),
                             pieces)))
      | Some (DirNode walk) \<Rightarrow>
          (case hash_dir (w_sha1 w) (w_md5_hexdigest w) (opt_piece_length opts) (opt_md5sum opts)
                  walk [] [] [] of
             Inl e \<Rightarrow> Inl e
           | Inr (files, pieces, incomplete_chunk) \<Rightarrow>
               Inr (dict_setitem info (KBytes ''files'') (PyList files),
                    if incomplete_chunk \<noteq> []
                    then pieces @ Rep_digest (w_sha1 w incomplete_chunk) else pieces))
      | None \<Rightarrow> Inr (info, []))"

definition build_info :: "world \<Rightarrow> bytes \<Rightarrow> options \<Rightarrow> error + (pykey \<times> pyval) list" where
  "build_info w filename opts =
     (case hash_content w filename opts (info_head (w_basename_normpath w filename) opts) of
        Inl e \<Rightarrow> Inl e
      | Inr (info1, pieces) \<Rightarrow>
          Inr (if opt_merkle opts
               then dict_setitem info1 (KBytes ''root hash'')
                      (PyBytes (fst (merkle_loop (w_sha1 w) pieces zero_digest 0)))
               else dict_setitem info1 (KBytes ''pieces'') (PyBytes pieces)))"

definition Metainfo :: "world \<Rightarrow> bytes \<Rightarrow> options \<Rightarrow> error + metainfo" where
  "Metainfo w filename opts =
     (case build_top (w_time w) opts of
        Inl e \<Rightarrow> Inl e
      | Inr self \<Rightarrow>
          (case build_info w filename opts of
             Inl e \<Rightarrow> Inl e
           | Inr info \<Rightarrow>
               Inr \<lparr> mi_items = dict_setitem self (KBytes ''info'') (PyDict info),
                     mi_announce = opt_announce opts,
                     mi_nodes = opt_nodes opts,
                     mi_httpseeds = opt_httpseeds opts,
                     mi_url_list = opt_url_list opts,
                     mi_info = info,
                     mi_infohash = None,
                     mi_name = w_basename_normpath w filename,
                     mi_length = (case map_of info (KBytes ''length'') of
                                    Some (PyInt n) \<Rightarrow> Some n | _ \<Rightarrow> None) \<rparr>))"

text \<open>
  The property \<^verbatim>\<open>infohash\<close>: computed on first use from the \<^verbatim>\<open>info\<close> dict alone and kept
  in \<^verbatim>\<open>__infohash\<close>.
\<close>

definition infohash :: "hash \<Rightarrow> metainfo \<Rightarrow> error + (string \<times> metainfo)" where
  "infohash sha1 self =
     (if \<not> truthy (mi_infohash self) then
        (case bencode (PyDict (mi_info self)) [] of
           Inl e \<Rightarrow> Inl e
         | Inr b \<Rightarrow> (let h = hexlify (Rep_digest (sha1 b))
                      in Inr (h, self\<lparr>mi_infohash := Some h\<rparr>)))
      else Inr (the (mi_infohash self), self))"

subsection \<open>Writing the file\<close>

text \<open>
  The end of \<^verbatim>\<open>main\<close>, from \<^verbatim>\<open>filename = prog_args.filename.rstrip(os_sep)\<close> on. \<open>open_wb\<close>
  is \<^verbatim>\<open>open(infoname, 'wb')\<close>: it fails on a directory and otherwise leaves an empty file
  at that path, before \<^verbatim>\<open>Metainfo\<close> is called inside the \<^verbatim>\<open>with\<close> block. \<open>file_write\<close> is
  \<^verbatim>\<open>infofile.write\<close>. \<open>main_write\<close> returns the file system it leaves and the metainfo built
  or the exception raised. The file system is a map from paths to nodes: a path is the
  name of its node (two paths are two nodes), and a directory holds the walk of its tree,
  which creating the destination does not extend.
\<close>

definition os_sep :: char where
  "os_sep = CHR ''/''"

definition rstrip :: "char \<Rightarrow> bytes \<Rightarrow> bytes" where
  "rstrip c b = rev (dropWhile (\<lambda>x. x = c) (rev b))"

definition open_wb :: "(bytes \<Rightarrow> node option) \<Rightarrow> bytes \<Rightarrow> error + (bytes \<Rightarrow> node option)" where
  "open_wb fs path =
     (case fs path of
        Some (DirNode walk) \<Rightarrow> Inl OSError
      | Some (FileNode fl) \<Rightarrow> Inr (fs(path \<mapsto> FileNode (RegFile [] (readable fl))))
      | None \<Rightarrow> Inr (fs(path \<mapsto> FileNode (RegFile [] True))))"

definition file_write :: "(bytes \<Rightarrow> node option) \<Rightarrow> bytes \<Rightarrow> bytes \<Rightarrow> (bytes \<Rightarrow> node option)" where
  "file_write fs path b =
     (case fs path of
        Some (FileNode fl) \<Rightarrow> fs(path \<mapsto> FileNode (RegFile (content fl @ b) (readable fl)))
      | _ \<Rightarrow> fs)"

definition main_write ::
  "world \<Rightarrow> bytes \<Rightarrow> bytes option \<Rightarrow> options \<Rightarrow> (bytes \<Rightarrow> node option) \<times> (error + metainfo)" where
  "main_write w filename output func_args =
     (let infoname = (if truthy output then the output else rstrip os_sep filename @ ''.torrent'')
      in case open_wb (w_fs w) infoname of
           Inl e \<Rightarrow> (w_fs w, Inl e)
         | Inr fs1 \<Rightarrow>
             (case Metainfo (w\<lparr>w_fs := fs1\<rparr>) filename func_args of
                Inl e \<Rightarrow> (fs1, Inl e)
              | Inr metainfo \<Rightarrow>
                  (case bencode (PyDict (mi_items metainfo)) [] of
                     Inl e \<Rightarrow> (fs1, Inl e)
                   | Inr b \<Rightarrow> (file_write fs1 infoname b, Inr metainfo))))"

text \<open>
  The defaults of \<^verbatim>\<open>Metainfo.__init__\<close>, and a stand-in for SHA-1 to run the definitions
  on concrete inputs: the last 20 bytes of the input reversed, padded with dots.
\<close>

lift_definition sample_sha1 :: hash is "\<lambda>b. take 20 (rev b @ ''....................'')"
  by simp

definition sample_world :: "(bytes \<Rightarrow> node option) \<Rightarrow> world" where
  "sample_world fs = \<lparr> w_sha1 = sample_sha1, w_md5_hexdigest = (\<lambda>b. ''md5:'' @ b), w_time = 7,
      w_basename_normpath = (\<lambda>p. p), w_fs = fs \<rparr>"

definition default_options :: options where
  "default_options = \<lparr> opt_announce = None, opt_nodes = None, opt_httpseeds = None,
      opt_url_list = None, opt_comment = None, opt_piece_length = 256 * 1024,
      opt_private = False, opt_md5sum = False, opt_merkle = False \<rparr>"

subsection \<open>The reduction as the specification words it\<close>

text \<open>
  The binary reduction on a sequence of 20-byte units, written from the specification and
  not from the code: while more than one unit remains, a sequence of odd length gets the
  padding value of the level appended, every adjacent pair \<open>(a, b)\<close> is replaced by
  \<open>digest (a || b)\<close>, and the padding value of the next level is
  \<open>digest (padding || padding)\<close>. \<open>units_bytes\<close> lays a sequence of units out as the byte
  array the code works on.
\<close>

fun pair_up :: "hash \<Rightarrow> digest list \<Rightarrow> digest list" where
  "pair_up digest (a # b # units) = digest (Rep_digest a @ Rep_digest b) # pair_up digest units"
| "pair_up digest units = []"

lemma pair_up_length [simp]: "length (pair_up digest units) = length units div 2"
  by (induction digest units rule: pair_up.induct) auto

function tree_reduce :: "hash \<Rightarrow> digest list \<Rightarrow> digest \<Rightarrow> digest list" where
  "tree_reduce digest units padding =
     (if length units > 1 then
        tree_reduce digest
          (pair_up digest (if odd (length units) then units @ [padding] else units))
          (digest (Rep_digest padding @ Rep_digest padding))
      else units)"
  by pat_completeness auto
termination
  by (relation "measure (\<lambda>(digest, units, padding). length units)") (auto, presburger)

declare tree_reduce.simps [simp del]

definition units_bytes :: "digest list \<Rightarrow> bytes" where
  "units_bytes units = concat (map Rep_digest units)"

subsection \<open>The chunks as the specification words them\<close>

text \<open>
  The windows of a byte stream for a chunk size \<open>L\<close>, written from the specification: one
  window for every \<open>L\<close> bytes, and a last, shorter one for the bytes that remain when the
  length is not a multiple of \<open>L\<close>. \<open>digests\<close> is the concatenation of the digests of the
  windows, and \<open>walk_stream\<close> the logical concatenation of the files of a directory in the
  order of the traversal. \<open>whole\<close> and \<open>remainder\<close> split a stream into its complete windows
  and the rest; they state what the directory loop has hashed and what it carries over.
\<close>

function spec_windows :: "nat \<Rightarrow> bytes \<Rightarrow> bytes list" where
  "spec_windows L stream =
     (if L = 0 \<or> stream = [] then [] else take L stream # spec_windows L (drop L stream))"
  by pat_completeness auto
termination
  by (relation "measure (\<lambda>(L, stream). length stream)") auto

declare spec_windows.simps [simp del]

definition digests :: "hash \<Rightarrow> bytes list \<Rightarrow> bytes" where
  "digests sha1 ws = concat (map (\<lambda>c. Rep_digest (sha1 c)) ws)"

definition whole :: "nat \<Rightarrow> bytes \<Rightarrow> bytes" where
  "whole L s = take (L * (length s div L)) s"

definition remainder :: "nat \<Rightarrow> bytes \<Rightarrow> bytes" where
  "remainder L s = drop (L * (length s div L)) s"

definition walk_stream :: "(bytes list \<times> regfile) list \<Rightarrow> bytes" where
  "walk_stream walk = concat (map (\<lambda>(relpath, fl). content fl) walk)"

subsection \<open>Auxiliary notions\<close>

text \<open>
  \<open>well_formed\<close> holds of the constructible trees without negative integers, the ones
  \<^verbatim>\<open>bdecode\<close> reads back. \<open>info_identifier\<close> is the string the property \<^verbatim>\<open>infohash\<close> returns.
  \<open>demo_fs\<close> is a file system with one readable file of ten bytes, for concrete instances.
\<close>

definition well_formed :: "pyval \<Rightarrow> bool" where
  "well_formed v = (constructible v \<and> nonneg v)"

definition info_identifier :: "hash \<Rightarrow> metainfo \<Rightarrow> error + string" where
  "info_identifier sha1 self = (case infohash sha1 self of Inl e \<Rightarrow> Inl e | Inr (h, self') \<Rightarrow> Inr h)"

definition demo_fs :: "bytes \<Rightarrow> node option" where
  "demo_fs = [''f'' \<mapsto> FileNode (RegFile ''abcdefghij'' True)]"

subsection \<open>The destination of the command line\<close>

text \<open>
  \<open>infoname_of\<close> is the path \<^verbatim>\<open>main\<close> opens: the \<^verbatim>\<open>--output\<close> argument when it is given and not
  empty, otherwise the file name without trailing separators followed by \<^verbatim>\<open>.torrent\<close>.
  \<open>unreadable_fs\<close> holds a source file that cannot be read and an older torrent at the
  destination. \<open>demo_options\<close>, \<open>demo_items\<close> and \<open>demo_torrent\<close> are the options, the top
  dict and the encoding of a run on \<open>demo_fs\<close> with pieces of four bytes.
\<close>

definition infoname_of :: "bytes \<Rightarrow> bytes option \<Rightarrow> bytes" where
  "infoname_of filename output =
     (if truthy output then the output else rstrip os_sep filename @ ''.torrent'')"

definition unreadable_fs :: "bytes \<Rightarrow> node option" where
  "unreadable_fs = [''f'' \<mapsto> FileNode (RegFile ''abcdefghij'' False),
                    ''f.torrent'' \<mapsto> FileNode (RegFile ''an older torrent'' True)]"

definition demo_options :: options where
  "demo_options = default_options\<lparr>opt_piece_length := 4\<rparr>"

definition demo_items :: "(pykey \<times> pyval) list" where
  "demo_items =
     [(KBytes ''creation date'', PyInt 7), (KBytes ''created by'', PyBytes ''gentorrent 1.0''),
      (KBytes ''info'',
       PyDict [(KBytes ''piece length'', PyInt 4), (KBytes ''name'', PyBytes ''f''),
               (KBytes ''length'', PyInt 10),
               (KBytes ''pieces'',
                PyBytes ''dcba................hgfe................ji..................'')])]"

definition demo_torrent :: bytes where
  "demo_torrent = ''d10:created by14:gentorrent 1.013:creation datei7e4:infod6:lengthi10e4:name1:f12:piece lengthi4e6:pieces60:dcba................hgfe................ji..................ee''"

section \<open>Properties of the codec\<close>

declare aux.simps [simp del] aux_dict.simps [simp del] aux_list.simps [simp del]

lemma read1_Cons [simp]: "read1 (c # data) = (Some c, data)"
  by (simp add: read1_def)

lemma read1_Nil [simp]: "read1 [] = (None, [])"
  by (simp add: read1_def)

lemma read1_append:
  "read1 data = (Some c, data') \<Longrightarrow> read1 (data @ s) = (Some c, data' @ s)"
  by (cases data) auto

lemma read1_Some: "read1 data = (Some c, data') \<Longrightarrow> data = c # data'"
  by (cases data) auto

lemma digits_loop_append:
  "digits_loop acc current data = (n, Some c, data') \<Longrightarrow>
   digits_loop acc current (data @ s) = (n, Some c, data' @ s)"
proof (induction acc current data rule: digits_loop.induct)
  case (1 acc data)
  then show ?case by simp
next
  case (2 acc c0 data)
  show ?case
  proof (cases "c0 \<in> set digits")
    case True
    obtain cur d1 where r: "read1 data = (cur, d1)" by (cases "read1 data")
    from 2(2) True r have rec: "digits_loop (acc * 10 + int_of_digit c0) cur d1 = (n, Some c, data')"
      by simp
    then obtain c1 where c1: "cur = Some c1" by (cases cur) auto
    from 2(1)[OF True r[symmetric] rec] read1_append[OF r[unfolded c1]] c1 True
    show ?thesis by simp
  next
    case False
    with 2(2) show ?thesis by simp
  qed
qed

lemma aux_string_append:
  assumes "aux_string magic data = Inr (v, rest)"
  shows "aux_string magic (data @ s) = Inr (v, rest @ s)"
proof -
  obtain len current data1 where d: "digits_loop 0 (Some magic) data = (len, current, data1)"
    by (cases "digits_loop 0 (Some magic) data")
  from assms d have c: "current = Some CHR '':''" and l: "len \<le> length data1"
    and v: "v = PyBytes (take len data1)" and r: "rest = drop len data1"
    by (auto simp: aux_string_def read_def split: if_splits)
  from digits_loop_append[OF d[unfolded c]] l v r show ?thesis
    by (simp add: aux_string_def read_def)
qed

lemma aux_int_append:
  assumes "aux_int data = Inr (v, rest)"
  shows "aux_int (data @ s) = Inr (v, rest @ s)"
proof -
  obtain current0 data1 where r: "read1 data = (current0, data1)" by (cases "read1 data")
  obtain i current data2 where d: "digits_loop 0 current0 data1 = (i, current, data2)"
    by (cases "digits_loop 0 current0 data1")
  from assms r d have c: "current = Some CHR ''e''" and v: "v = PyInt (int i)" and rest: "rest = data2"
    by (auto simp: aux_int_def split: if_splits)
  from d c obtain c0 where c0: "current0 = Some c0" by (cases current0) auto
  from digits_loop_append[OF d[unfolded c]] read1_append[OF r[unfolded c0]] c0 v rest
  show ?thesis by (simp add: aux_int_def)
qed

lemma aux_append:
  shows "aux data magic0 = Inr (v, rest) \<Longrightarrow> aux (data @ s) magic0 = Inr (v, rest @ s)"
  and "aux_dict data' current d = Inr (v', rest') \<Longrightarrow>
       aux_dict (data' @ s) current d = Inr (v', rest' @ s)"
  and "aux_list data'' current' l = Inr (v'', rest'') \<Longrightarrow>
       aux_list (data'' @ s) current' l = Inr (v'', rest'' @ s)"
proof (induct data magic0 and data' current d and data'' current' l
    arbitrary: v rest and v' rest' and v'' rest'' rule: aux_aux_dict_aux_list.induct)
  case (1 data)
  obtain cur d1 where r: "read1 data = (cur, d1)" by (cases "read1 data")
  from 1(2) r obtain m where m: "cur = Some m" "aux d1 (Some m) = Inr (v, rest)"
    by (auto simp: aux.simps(1) split: option.splits)
  from 1(1)[OF r[symmetric] m(1) m(2)] read1_append[OF r[unfolded m(1)]] show ?case
    by (simp add: aux.simps(1))
next
  case (2 data magic)
  note eq = 2(3)[unfolded aux.simps(2)]
  obtain cur d1 where r: "read1 data = (cur, d1)" by (cases "read1 data")
  consider (s) "magic \<in> set digits"
    | (i) "magic \<notin> set digits" "magic = CHR ''i''"
    | (d) "magic \<notin> set digits" "magic \<noteq> CHR ''i''" "magic = CHR ''d''"
    | (l) "magic \<notin> set digits" "magic \<noteq> CHR ''i''" "magic \<noteq> CHR ''d''" "magic = CHR ''l''"
    | (o) "magic \<notin> set digits" "magic \<noteq> CHR ''i''" "magic \<noteq> CHR ''d''" "magic \<noteq> CHR ''l''"
    by blast
  then show ?case
  proof cases
    case s
    with eq have "aux_string magic data = Inr (v, rest)" by simp
    from aux_string_append[OF this] s show ?thesis by (simp add: aux.simps(2))
  next
    case i
    with eq have "aux_int data = Inr (v, rest)" by simp
    from aux_int_append[OF this] i show ?thesis by (simp add: aux.simps(2))
  next
    case d
    with eq r have rec: "aux_dict d1 cur [] = Inr (v, rest)" by simp
    then obtain c where c: "cur = Some c" by (cases cur) (auto simp: aux_dict.simps)
    from 2(1)[OF d r[symmetric] rec] read1_append[OF r[unfolded c]] d c show ?thesis
      by (simp add: aux.simps(2))
  next
    case l
    with eq r have rec: "aux_list d1 cur [] = Inr (v, rest)" by simp
    then obtain c where c: "cur = Some c" by (cases cur) (auto simp: aux_list.simps)
    from 2(2)[OF l r[symmetric] rec] read1_append[OF r[unfolded c]] l c show ?thesis
      by (simp add: aux.simps(2))
  next
    case o
    with eq show ?thesis by simp
  qed
next
  case (3 data d)
  then show ?case by (simp add: aux_dict.simps(1))
next
  case (4 data current d)
  note eq = 4(4)[unfolded aux_dict.simps(2)]
  show ?case
  proof (cases "current = CHR ''e''")
    case True
    with eq show ?thesis by (simp add: aux_dict.simps(2))
  next
    case False
    from eq False obtain key data1 where k: "aux data (Some current) = Inr (key, data1)"
      by (auto split: sum.splits)
    from eq False k obtain val data2 where w: "aux data1 None = Inr (val, data2)"
      by (auto split: sum.splits)
    from eq False k w obtain kk where h: "hashable key = Inr kk"
      by (auto split: sum.splits)
    obtain cur d3 where r: "read1 data2 = (cur, d3)" by (cases "read1 data2")
    from eq False k w h r have rec: "aux_dict d3 cur (dict_setitem d kk val) = Inr (v', rest')"
      by simp
    then obtain c where c: "cur = Some c" by (cases cur) (auto simp: aux_dict.simps)
    have 1: "aux (data @ s) (Some current) = Inr (key, data1 @ s)" by (rule 4(1)[OF False k])
    have 2: "aux (data1 @ s) None = Inr (val, data2 @ s)" by (rule 4(2)[OF False k refl w])
    have 3: "aux_dict (d3 @ s) cur (dict_setitem d kk val) = Inr (v', rest' @ s)"
      by (rule 4(3)[OF False k refl w refl h r[symmetric] rec])
    from 1 2 3 h False read1_append[OF r[unfolded c]] c show ?thesis
      by (simp add: aux_dict.simps(2))
  qed
next
  case (5 data l)
  then show ?case by (simp add: aux_list.simps(1))
next
  case (6 data current l)
  note eq = 6(3)[unfolded aux_list.simps(2)]
  show ?case
  proof (cases "current = CHR ''e''")
    case True
    with eq show ?thesis by (simp add: aux_list.simps(2))
  next
    case False
    from eq False obtain elt data1 where k: "aux data (Some current) = Inr (elt, data1)"
      by (auto split: sum.splits)
    obtain cur d2 where r: "read1 data1 = (cur, d2)" by (cases "read1 data1")
    from eq False k r have rec: "aux_list d2 cur (l @ [elt]) = Inr (v'', rest'')"
      by simp
    then obtain c where c: "cur = Some c" by (cases cur) (auto simp: aux_list.simps)
    have 1: "aux (data @ s) (Some current) = Inr (elt, data1 @ s)" by (rule 6(1)[OF False k])
    have 3: "aux_list (d2 @ s) cur (l @ [elt]) = Inr (v'', rest'' @ s)"
      by (rule 6(2)[OF False k refl r[symmetric] rec])
    from 1 3 False read1_append[OF r[unfolded c]] c show ?thesis
      by (simp add: aux_list.simps(2))
  qed
qed

lemma digit_char_in: "d < 10 \<Longrightarrow> digit_char d \<in> set digits"
  unfolding digit_char_def by (rule nth_mem) (simp add: digits_def)

lemma int_of_digit_char: "d < 10 \<Longrightarrow> int_of_digit (digit_char d) = d"
proof -
  assume "d < 10"
  then have "d \<in> {0,1,2,3,4,5,6,7,8,9}" by auto
  then show ?thesis
    unfolding digit_char_def int_of_digit_def digits_def
    by (elim insertE emptyE; simp)
qed

lemma digits_not: "CHR '':'' \<notin> set digits" "CHR ''e'' \<notin> set digits" "CHR ''i'' \<notin> set digits"
  "CHR ''d'' \<notin> set digits" "CHR ''l'' \<notin> set digits" "CHR ''-'' \<notin> set digits"
  by (simp_all add: digits_def)

lemma digits_loop_run:
  "set ds \<subseteq> set digits \<Longrightarrow> c \<notin> set digits \<Longrightarrow> read1 (ds @ c # t) = (cur, data) \<Longrightarrow>
   digits_loop acc cur data = (fold digit_step ds acc, Some c, t)"
proof (induction ds arbitrary: acc cur data)
  case Nil
  then show ?case by auto
next
  case (Cons x xs)
  obtain cur' data' where r: "read1 (xs @ c # t) = (cur', data')" by (cases "read1 (xs @ c # t)")
  from Cons.prems have x: "x \<in> set digits" and xs: "set xs \<subseteq> set digits"
    and cur: "cur = Some x" "data = xs @ c # t" by auto
  from Cons.IH[OF xs Cons.prems(2) r, of "acc * 10 + int_of_digit x"] x cur r
  show ?case by (simp add: digit_step_def)
qed

lemma format_nat_digits: "set (format_nat n) \<subseteq> set digits"
proof (induction n rule: format_nat.induct)
  case (1 n)
  show ?case
  proof (cases "n < 10")
    case True
    then show ?thesis by (subst format_nat.simps) (simp add: digit_char_in)
  next
    case False
    with 1 have "set (format_nat (n div 10)) \<subseteq> set digits" by simp
    with False show ?thesis by (subst format_nat.simps) (simp add: digit_char_in)
  qed
qed

lemma format_nat_value: "fold digit_step (format_nat n) 0 = n"
proof (induction n rule: format_nat.induct)
  case (1 n)
  show ?case
  proof (cases "n < 10")
    case True
    then show ?thesis
      by (subst format_nat.simps) (simp add: digit_step_def int_of_digit_char)
  next
    case False
    with 1 have "fold digit_step (format_nat (n div 10)) 0 = n div 10" by simp
    with False show ?thesis
      by (subst format_nat.simps) (simp add: digit_step_def int_of_digit_char)
  qed
qed

lemma format_nat_nonempty: "format_nat n \<noteq> []"
  by (subst format_nat.simps) simp

lemma digits_loop_format_nat:
  assumes "c \<notin> set digits" "read1 (format_nat n @ c # t) = (cur, data)"
  shows "digits_loop 0 cur data = (n, Some c, t)"
  using digits_loop_run[OF format_nat_digits assms, of 0] by (simp add: format_nat_value)

lemma sorted_items_KBytes:
  "list_all (is_KBytes \<circ> fst) kvs \<Longrightarrow> sorted_items kvs = Inr (sort_key (un_KBytes \<circ> fst) kvs)"
  by (simp add: sorted_items_def)

lemma bencode_enc_aux:
  shows "constructible v \<Longrightarrow> bencode v buf = Inr (buf @ enc v)"
  and "list_all (\<lambda>(k, v). is_KBytes k \<and> constructible v) items \<Longrightarrow>
       bencode_items items buf' =
         Inr (buf' @ concat (map (\<lambda>(k, v). enc (key_val k) @ enc v) items))"
  and "list_all constructible l \<Longrightarrow> bencode_elts l buf'' = Inr (buf'' @ concat (map enc l))"
proof (induct v buf and items buf' and l buf'' rule: bencode_bencode_items_bencode_elts.induct)
  case (5 kvs buf)
  let ?items = "sort_key (un_KBytes \<circ> fst) kvs"
  from 5(2) have kb: "list_all (is_KBytes \<circ> fst) kvs" by simp
  from 5(2) have "list_all (\<lambda>(k, v). is_KBytes k \<and> constructible v) ?items"
    by (auto simp: list_all_iff)
  from 5(1)[OF sorted_items_KBytes[OF kb] this] sorted_items_KBytes[OF kb]
  show ?case by simp
next
  case (6 l buf)
  then show ?case by simp
next
  case (9 key v items buf)
  from 9(4) obtain b where key: "key = KBytes b" by (cases key) auto
  have k: "bencode (key_val key) buf = Inr (buf @ enc (key_val key))"
    using 9(1) key by simp
  from 9(4) have cv: "constructible v" by simp
  have v: "bencode v (buf @ enc (key_val key)) = Inr (buf @ enc (key_val key) @ enc v)"
    using 9(2)[OF k cv] by simp
  from 9(4) have "list_all (\<lambda>(k, v). is_KBytes k \<and> constructible v) items" by simp
  from 9(3)[OF k v this] k v show ?case by simp
next
  case (11 elt l buf)
  from 11(3) have e: "bencode elt buf = Inr (buf @ enc elt)" using 11(1) by simp
  from 11(3) have "list_all constructible l" by simp
  from 11(2)[OF e this] e show ?case by simp
qed (simp_all add: format_d_def)

lemma bencode_enc: "constructible v \<Longrightarrow> bencode v [] = Inr (enc v)"
  using bencode_enc_aux(1)[of v "[]"] by simp


lemma format_nat_head: "\<exists>c t. format_nat n = c # t \<and> c \<in> set digits"
proof -
  obtain c t where ct: "format_nat n = c # t" using format_nat_nonempty[of n] by (cases "format_nat n") auto
  with format_nat_digits[of n] show ?thesis by auto
qed

lemma enc_head: "constructible v \<Longrightarrow> \<exists>c t. enc v = c # t \<and> c \<noteq> CHR ''e''"
proof (cases v)
  case (PyBytes b)
  obtain c t where "format_nat (length b) = c # t" "c \<in> set digits"
    using format_nat_head by blast
  with PyBytes digits_not(2) show ?thesis by auto
qed auto

lemma aux_enc_bytes: "aux (enc (PyBytes b) @ s) None = Inr (PyBytes b, s)"
proof -
  obtain c t where ct: "format_nat (length b) = c # t" and c: "c \<in> set digits"
    using format_nat_head by blast
  have r: "read1 (format_nat (length b) @ CHR '':'' # b @ s) = (Some c, t @ CHR '':'' # b @ s)"
    by (simp add: ct)
  have "digits_loop 0 (Some c) (t @ CHR '':'' # b @ s) = (length b, Some CHR '':'', b @ s)"
    by (rule digits_loop_format_nat[OF digits_not(1) r])
  then have "aux_string c (t @ CHR '':'' # b @ s) = Inr (PyBytes b, s)"
    by (simp add: aux_string_def read_def)
  with c show ?thesis by (simp add: ct aux.simps)
qed

lemma aux_enc_int:
  assumes "0 \<le> i"
  shows "aux (enc (PyInt i) @ s) None = Inr (PyInt i, s)"
proof -
  obtain cur data where r: "read1 (format_nat (nat i) @ CHR ''e'' # s) = (cur, data)"
    by (cases "read1 (format_nat (nat i) @ CHR ''e'' # s)")
  have "digits_loop 0 cur data = (nat i, Some CHR ''e'', s)"
    by (rule digits_loop_format_nat[OF digits_not(2) r])
  with r assms have "aux_int (format_nat (nat i) @ CHR ''e'' # s) = Inr (PyInt i, s)"
    by (simp add: aux_int_def)
  with assms show ?thesis by (simp add: aux.simps format_d_def digits_not)
qed

lemma aux_None_Cons: "aux (c # data) None = aux data (Some c)"
  by (simp add: aux.simps(1))

lemma aux_list_run:
  assumes "\<forall>x \<in> set l. constructible x \<and> (\<forall>s. aux (enc x @ s) None = Inr (canon x, s))"
    and "read1 (concat (map enc l) @ CHR ''e'' # s) = (cur, data)"
  shows "aux_list data cur acc = Inr (PyList (acc @ map canon l), s)"
  using assms
proof (induction l arbitrary: acc cur data)
  case Nil
  then show ?case by (auto simp: aux_list.simps)
next
  case (Cons x xs)
  from Cons.prems(1) obtain c t where ct: "enc x = c # t" and c: "c \<noteq> CHR ''e''"
    using enc_head[of x] by auto
  let ?rest = "concat (map enc xs) @ CHR ''e'' # s"
  from Cons.prems(2) ct have cur: "cur = Some c" and data: "data = t @ ?rest" by auto
  from Cons.prems(1) have "aux (enc x @ ?rest) None = Inr (canon x, ?rest)" by simp
  then have x: "aux (t @ ?rest) (Some c) = Inr (canon x, ?rest)"
    by (simp add: ct aux_None_Cons)
  obtain cur' data' where r: "read1 ?rest = (cur', data')" by (cases "read1 ?rest")
  from Cons.prems(1) have "\<forall>x \<in> set xs. constructible x \<and> (\<forall>s. aux (enc x @ s) None = Inr (canon x, s))"
    by simp
  from Cons.IH[OF this r, of "acc @ [canon x]"] x r c cur data
  show ?case by (simp add: aux_list.simps(2))
qed

lemma dict_setitem_fresh: "k \<notin> fst ` set d \<Longrightarrow> dict_setitem d k v = d @ [(k, v)]"
  by (induction d) auto

lemma aux_dict_run:
  assumes "\<forall>(k, v) \<in> set items. is_KBytes k \<and> constructible v \<and>
             (\<forall>s. aux (enc v @ s) None = Inr (canon v, s))"
    and "distinct (map fst acc @ map fst items)"
    and "read1 (concat (map (\<lambda>(k, v). enc (key_val k) @ enc v) items) @ CHR ''e'' # s) = (cur, data)"
  shows "aux_dict data cur acc = Inr (PyDict (acc @ map (\<lambda>(k, v). (k, canon v)) items), s)"
  using assms
proof (induction items arbitrary: acc cur data)
  case Nil
  then show ?case by (auto simp: aux_dict.simps)
next
  case (Cons kv items)
  obtain k v where kv: "kv = (k, v)" by (cases kv)
  from Cons.prems(1) kv obtain b where k: "k = KBytes b" by (cases k) auto
  from Cons.prems(1) kv have cv: "constructible v"
    and rv: "\<And>s. aux (enc v @ s) None = Inr (canon v, s)" by auto
  obtain c t where ct: "enc (PyBytes b) = c # t" and c: "c \<noteq> CHR ''e''"
    using enc_head[of "PyBytes b"] by auto
  let ?rest = "concat (map (\<lambda>(k, v). enc (key_val k) @ enc v) items) @ CHR ''e'' # s"
  from Cons.prems(3) ct kv k have cur: "cur = Some c" and data: "data = t @ enc v @ ?rest"
    by (auto simp del: enc.simps)
  have "aux (enc (PyBytes b) @ enc v @ ?rest) None = Inr (PyBytes b, enc v @ ?rest)"
    by (rule aux_enc_bytes)
  then have key: "aux (t @ enc v @ ?rest) (Some c) = Inr (PyBytes b, enc v @ ?rest)"
    by (simp only: ct append_Cons aux_None_Cons)
  have val: "aux (enc v @ ?rest) None = Inr (canon v, ?rest)" by (rule rv)
  obtain cur' data' where r: "read1 ?rest = (cur', data')" by (cases "read1 ?rest")
  from Cons.prems(2) kv have fresh: "k \<notin> fst ` set acc" by auto
  from Cons.prems(1) have 1: "\<forall>(k, v) \<in> set items. is_KBytes k \<and> constructible v \<and>
             (\<forall>s. aux (enc v @ s) None = Inr (canon v, s))" by simp
  from Cons.prems(2) kv have 2: "distinct (map fst (acc @ [(k, canon v)]) @ map fst items)"
    by auto
  from Cons.IH[OF 1 2 r] key val r c cur data k kv dict_setitem_fresh[OF fresh, of "canon v"]
  show ?case by (simp add: aux_dict.simps(2))
qed

lemma insort_key_map_snd:
  "insort_key (f \<circ> fst) (k, g v) (map (\<lambda>(k, v). (k, g v)) xs) =
   map (\<lambda>(k, v). (k, g v)) (insort_key (f \<circ> fst) (k, v) xs)"
  by (induction xs) auto

lemma sort_key_map_snd:
  "sort_key (f \<circ> fst) (map (\<lambda>(k, v). (k, g v)) kvs) = map (\<lambda>(k, v). (k, g v)) (sort_key (f \<circ> fst) kvs)"
proof (induction kvs)
  case Nil
  then show ?case by simp
next
  case (Cons kv kvs)
  obtain k v where kv: "kv = (k, v)" by (cases kv)
  from Cons insort_key_map_snd[of f k g v "sort_key (f \<circ> fst) kvs"] show ?case
    by (simp add: kv comp_def)
qed

lemma aux_enc:
  "constructible v \<Longrightarrow> nonneg v \<Longrightarrow> aux (enc v @ s) None = Inr (canon v, s)"
proof (induction v arbitrary: s)
  case (PyBytes b)
  show ?case using aux_enc_bytes[of b s] by simp
next
  case (PyInt i)
  then show ?case using aux_enc_int[of i s] by simp
next
  case (PyList l)
  have el: "\<forall>x \<in> set l. constructible x \<and> (\<forall>s. aux (enc x @ s) None = Inr (canon x, s))"
    using PyList by (auto simp: list_all_iff)
  obtain cur data where r: "read1 (concat (map enc l) @ CHR ''e'' # s) = (cur, data)"
    by (cases "read1 (concat (map enc l) @ CHR ''e'' # s)")
  from aux_list_run[OF el r, of "[]"] r show ?case
    by (simp add: aux_None_Cons aux.simps(2) digits_not)
next
  case (PyDict kvs)
  let ?items = "sort_key (un_KBytes \<circ> fst) kvs"
  have it: "\<forall>(k, v) \<in> set ?items. is_KBytes k \<and> constructible v \<and>
             (\<forall>s. aux (enc v @ s) None = Inr (canon v, s))"
    using PyDict by (fastforce simp: list_all_iff)
  have di: "distinct (map fst [] @ map fst ?items)"
    using PyDict.prems(1) by (simp add: distinct_map)
  obtain cur data where r: "read1 (concat (map (\<lambda>(k, v). enc (key_val k) @ enc v) ?items) @ CHR ''e'' # s) = (cur, data)"
    by (cases "read1 (concat (map (\<lambda>(k, v). enc (key_val k) @ enc v) ?items) @ CHR ''e'' # s)")
  from aux_dict_run[OF it di r] r show ?case
    by (simp add: aux_None_Cons aux.simps(2) digits_not sort_key_map_snd)
qed simp_all

lemma py_eq_canon: "constructible v \<Longrightarrow> py_eq (canon v) v"
proof (induction v)
  case (PyList l)
  then show ?case by (auto simp: list_all2_map1 list_all_iff intro!: list_all2_all_nthI)
next
  case (PyDict kvs)
  have "\<And>k v. (k, v) \<in> set kvs \<Longrightarrow> map_of kvs k = Some v \<and> py_eq (canon v) v"
    using PyDict by (auto simp: list_all_iff)
  then show ?case by (auto simp: list_all_iff)
qed simp_all


lemma bdecode_Inr: "bdecode data k = Inr v \<longleftrightarrow> (\<exists>rest. aux data None = Inr (v, rest))"
  by (auto simp: bdecode_def split: sum.splits)

lemma bdecode_aux: "aux data None = Inr (v, rest) \<Longrightarrow> bdecode data k = Inr v"
  by (simp add: bdecode_def)

lemma sort_key_set_unique:
  assumes "distinct (map f xs)" "distinct (map f ys)" "set xs = set ys"
  shows "sort_key f xs = sort_key f ys"
proof -
  from assms(1) have dx: "distinct xs" and ix: "inj_on f (set xs)" by (auto simp: distinct_map)
  from assms(2) have dy: "distinct ys" by (auto simp: distinct_map)
  have "map f (sort_key f xs) = map f (sort_key f ys)"
  proof (rule sorted_distinct_set_unique)
    show "distinct (map f (sort_key f xs))" using dx ix by (simp add: distinct_map)
    show "distinct (map f (sort_key f ys))" using dy ix assms(3) by (simp add: distinct_map)
    show "set (map f (sort_key f xs)) = set (map f (sort_key f ys))" using assms(3) by simp
  qed simp_all
  moreover have "inj_on f (set (sort_key f xs) \<union> set (sort_key f ys))"
    using ix assms(3) by simp
  ultimately show ?thesis by (simp add: inj_on_map_eq_map)
qed

lemma un_KBytes_inj: "is_KBytes a \<Longrightarrow> is_KBytes b \<Longrightarrow> un_KBytes a = un_KBytes b \<Longrightarrow> a = b"
  by (cases a; cases b) auto

lemma un_KInt_inj: "is_KInt a \<Longrightarrow> is_KInt b \<Longrightarrow> un_KInt a = un_KInt b \<Longrightarrow> a = b"
  by (cases a; cases b) auto

lemma distinct_key_bytes:
  assumes "distinct (map fst kvs)" "list_all (is_KBytes \<circ> fst) kvs"
  shows "distinct (map (un_KBytes \<circ> fst) kvs)"
proof -
  have "inj_on un_KBytes (set (map fst kvs))"
    using assms(2) by (auto simp: inj_on_def list_all_iff intro: un_KBytes_inj)
  with assms(1) show ?thesis
    by (auto simp: distinct_map intro: comp_inj_on)
qed

lemma distinct_key_ints:
  assumes "distinct (map fst kvs)" "list_all (is_KInt \<circ> fst) kvs"
  shows "distinct (map (un_KInt \<circ> fst) kvs)"
proof -
  have "inj_on un_KInt (set (map fst kvs))"
    using assms(2) by (auto simp: inj_on_def list_all_iff intro: un_KInt_inj)
  with assms(1) show ?thesis
    by (auto simp: distinct_map intro: comp_inj_on)
qed

lemma sorted_items_set_unique:
  assumes "distinct (map fst kvs)" "distinct (map fst kvs')" "set kvs' = set kvs"
  shows "sorted_items kvs' = sorted_items kvs"
proof -
  have b: "list_all (is_KBytes \<circ> fst) kvs' = list_all (is_KBytes \<circ> fst) kvs"
    and i: "list_all (is_KInt \<circ> fst) kvs' = list_all (is_KInt \<circ> fst) kvs"
    using assms(3) by (simp_all add: list_all_iff)
  show ?thesis
  proof (cases "list_all (is_KBytes \<circ> fst) kvs")
    case True
    with b have "sort_key (un_KBytes \<circ> fst) kvs' = sort_key (un_KBytes \<circ> fst) kvs"
      by (intro sort_key_set_unique distinct_key_bytes assms) simp_all
    with True b show ?thesis by (simp add: sorted_items_def)
  next
    case False
    show ?thesis
    proof (cases "list_all (is_KInt \<circ> fst) kvs")
      case True
      with i have "sort_key (un_KInt \<circ> fst) kvs' = sort_key (un_KInt \<circ> fst) kvs"
        by (intro sort_key_set_unique distinct_key_ints assms) simp_all
      with True False b i show ?thesis by (simp add: sorted_items_def)
    next
      case F2: False
      with False b i show ?thesis by (simp add: sorted_items_def)
    qed
  qed
qed

section \<open>Properties of the Merkle loop\<close>

lemma Rep_digest_length [simp]: "length (Rep_digest d) = 20"
  using Rep_digest[of d] by simp

lemma units_bytes_length [simp]: "length (units_bytes units) = 20 * length units"
  by (induction units) (auto simp: units_bytes_def)

lemma units_bytes_simps [simp]:
  "units_bytes [] = []" "units_bytes (u # units) = Rep_digest u @ units_bytes units"
  "units_bytes (us @ vs) = units_bytes us @ units_bytes vs"
  by (simp_all add: units_bytes_def)

lemma units_bytes_drop: "drop (20 * k) (units_bytes units) = units_bytes (drop k units)"
proof (induction units arbitrary: k)
  case Nil
  then show ?case by simp
next
  case (Cons u units)
  show ?case
  proof (cases k)
    case 0
    then show ?thesis by simp
  next
    case (Suc j)
    with Cons[of j] show ?thesis by simp
  qed
qed

lemma length_ge2E: "2 \<le> length xs \<Longrightarrow> \<exists>a b rest. xs = a # b # rest"
  by (cases xs; cases "tl xs") auto

lemma hash_pairs_units:
  assumes "length us = 2 * m" "k \<le> m" "length ws = k"
  shows "hash_pairs sha1 (units_bytes ws @ units_bytes (drop k us)) (map (\<lambda>j. 20 * j) [k ..< m])
         = units_bytes (ws @ pair_up sha1 (drop (2 * k) us)) @ units_bytes (drop m us)"
  using assms
proof (induction "m - k" arbitrary: k ws)
  case 0
  then have "k = m" by simp
  with 0 show ?case by simp
next
  case (Suc n)
  then have km: "k < m" by simp
  with Suc.prems have "2 \<le> length (drop (2 * k) us)" by simp
  then obtain a b rest where d2: "drop (2 * k) us = a # b # rest"
    using length_ge2E by blast
  then have rest: "rest = drop (2 * Suc k) us"
    by (metis drop_Suc list.sel(3) mult_Suc_right add.commute add_2_eq_Suc' tl_drop)
  from km Suc.prems have "k < length us" by simp
  then obtain u where dk: "drop k us = u # drop (Suc k) us"
    by (metis Cons_nth_drop_Suc)
  let ?cur = "units_bytes ws @ units_bytes (drop k us)"
  let ?h = "sha1 (Rep_digest a @ Rep_digest b)"
  have lw: "length (units_bytes ws) = 20 * k" using Suc.prems by simp
  have t: "take (20 * k) ?cur = units_bytes ws" using lw by simp
  have "drop (2 * (20 * k)) ?cur = drop (20 * k) (units_bytes (drop k us))"
    using lw by simp
  also have "\<dots> = units_bytes (drop (2 * k) us)"
    by (simp add: units_bytes_drop mult_2)
  finally have r: "take 40 (drop (2 * (20 * k)) ?cur) = Rep_digest a @ Rep_digest b"
    by (simp add: d2)
  have d: "drop (20 * k + 20) ?cur = units_bytes (drop (Suc k) us)"
    using lw by (simp add: dk)
  have idx: "[k ..< m] = k # [Suc k ..< m]" using km by (simp add: upt_conv_Cons)
  have "hash_pairs sha1 ?cur (map (\<lambda>j. 20 * j) [k ..< m])
      = hash_pairs sha1 (take (20 * k) ?cur @
          Rep_digest (sha1 (take 40 (drop (2 * (20 * k)) ?cur))) @ drop (20 * k + 20) ?cur)
          (map (\<lambda>j. 20 * j) [Suc k ..< m])"
    unfolding idx by (simp only: list.map hash_pairs.simps)
  also have "\<dots> = hash_pairs sha1 (units_bytes ws @ Rep_digest ?h @ units_bytes (drop (Suc k) us))
          (map (\<lambda>j. 20 * j) [Suc k ..< m])"
    unfolding t r d ..
  finally have step: "hash_pairs sha1 ?cur (map (\<lambda>j. 20 * j) [k ..< m])
      = hash_pairs sha1 (units_bytes (ws @ [?h]) @ units_bytes (drop (Suc k) us))
          (map (\<lambda>j. 20 * j) [Suc k ..< m])"
    by simp
  have "n = m - Suc k" using Suc.hyps(2) by simp
  from Suc.hyps(1)[OF this Suc.prems(1), of "ws @ [?h]"] km Suc.prems(3)
  have "hash_pairs sha1 (units_bytes (ws @ [?h]) @ units_bytes (drop (Suc k) us))
          (map (\<lambda>j. 20 * j) [Suc k ..< m])
        = units_bytes ((ws @ [?h]) @ pair_up sha1 (drop (2 * Suc k) us)) @ units_bytes (drop m us)"
    by simp
  with step show ?case by (simp add: d2 rest)
qed

lemma py_range_20: "py_range (20 * m) 20 = map (\<lambda>j. 20 * j) [0 ..< m]"
proof -
  have "(20 * m + 20 - 1) div 20 = m" by simp
  then show ?thesis by (simp add: py_range_def)
qed

lemma hash_pairs_level:
  assumes "length us = 2 * m"
  shows "take (20 * m) (hash_pairs sha1 (units_bytes us) (py_range (length (units_bytes us) div 2) 20))
         = units_bytes (pair_up sha1 us)"
proof -
  have "length (units_bytes us) div 2 = 20 * m" using assms by simp
  moreover have "hash_pairs sha1 (units_bytes us) (map (\<lambda>j. 20 * j) [0 ..< m])
      = units_bytes (pair_up sha1 us) @ units_bytes (drop m us)"
    using hash_pairs_units[OF assms, of 0 "[]" sha1] by simp
  ultimately show ?thesis using assms by (simp add: py_range_20)
qed

lemma merkle_loop_tree_reduce:
  "fst (merkle_loop sha1 (units_bytes hs) padding rounds)
   = units_bytes (tree_reduce sha1 hs padding)"
proof (induction sha1 hs padding arbitrary: rounds rule: tree_reduce.induct)
  case (1 sha1 hs padding)
  show ?case
  proof (cases "length hs > 1")
    case False
    then show ?thesis
      by (subst merkle_loop.simps, subst tree_reduce.simps) simp
  next
    case True
    let ?us = "if odd (length hs) then hs @ [padding] else hs"
    let ?p1 = "if length (units_bytes hs) mod 40 \<noteq> 0
               then units_bytes hs @ Rep_digest padding else units_bytes hs"
    have p1: "?p1 = units_bytes ?us"
    proof (cases "odd (length hs)")
      case True
      then have "length (units_bytes hs) mod 40 \<noteq> 0" by (simp; presburger)
      with True show ?thesis by (simp del: units_bytes_length)
    next
      case False
      then have "length (units_bytes hs) mod 40 = 0" by (simp; presburger)
      with False show ?thesis by (simp del: units_bytes_length)
    qed
    have "even (length ?us)" by simp
    then obtain m where m: "length ?us = 2 * m" by (elim evenE)
    let ?p2 = "hash_pairs sha1 ?p1 (py_range (length ?p1 div 2) 20)"
    have l2: "length ?p2 = length ?p1"
      using merkle_round_length(1)[of "units_bytes hs" ?p1 padding sha1] True by simp
    have tk: "take (length ?p2 div 2) ?p2 = units_bytes (pair_up sha1 ?us)"
      unfolding l2 unfolding p1 using hash_pairs_level[OF m, of sha1] m by simp
    have gt: "20 < length (units_bytes hs)" using True by simp
    have "merkle_loop sha1 (units_bytes hs) padding rounds
        = merkle_loop sha1 (take (length ?p2 div 2) ?p2)
            (sha1 (Rep_digest padding @ Rep_digest padding)) (Suc rounds)"
      by (subst merkle_loop.simps) (simp only: gt if_True Let_def)
    also have "\<dots> = merkle_loop sha1 (units_bytes (pair_up sha1 ?us))
            (sha1 (Rep_digest padding @ Rep_digest padding)) (Suc rounds)"
      by (simp only: tk)
    finally have "fst (merkle_loop sha1 (units_bytes hs) padding rounds)
        = units_bytes (tree_reduce sha1 (pair_up sha1 ?us)
            (sha1 (Rep_digest padding @ Rep_digest padding)))"
      using 1[OF True, of "Suc rounds"] by simp
    also have "tree_reduce sha1 (pair_up sha1 ?us) (sha1 (Rep_digest padding @ Rep_digest padding))
        = tree_reduce sha1 hs padding"
      using True by (subst (2) tree_reduce.simps) simp
    finally show ?thesis .
  qed
qed


lemma Rep_zero_digest: "Rep_digest zero_digest = replicate 20 (CHR 0x00)"
  by (rule zero_digest.rep_eq)

lemma merkle_loop_round:
  assumes "length pieces = 20 * n" "1 < n"
  shows "\<exists>pieces'. length pieces' = 20 * ((n + 1) div 2) \<and> (n + 1) div 2 < n \<and>
           merkle_loop sha1 pieces padding rounds
             = merkle_loop sha1 pieces' (sha1 (Rep_digest padding @ Rep_digest padding)) (Suc rounds)"
proof -
  let ?p1 = "if length pieces mod 40 \<noteq> 0 then pieces @ Rep_digest padding else pieces"
  let ?p2 = "hash_pairs sha1 ?p1 (py_range (length ?p1 div 2) 20)"
  let ?p3 = "take (length ?p2 div 2) ?p2"
  have gt: "20 < length pieces" using assms by simp
  have l2: "length ?p2 = length ?p1"
    by (rule merkle_round_length(1)[OF gt refl])
  have l1: "length ?p1 div 2 = 20 * ((n + 1) div 2)"
  proof (cases "even n")
    case True
    then have "length pieces mod 40 = 0" using assms(1) by (simp; presburger)
    with True assms(1) show ?thesis by (simp; presburger)
  next
    case False
    then have "length pieces mod 40 \<noteq> 0" using assms(1) by (simp; presburger)
    with False assms(1) show ?thesis by (simp; presburger)
  qed
  have "length ?p3 = 20 * ((n + 1) div 2)" using l1 l2 by simp
  moreover have "(n + 1) div 2 < n" using assms(2) by simp
  moreover have "merkle_loop sha1 pieces padding rounds
      = merkle_loop sha1 ?p3 (sha1 (Rep_digest padding @ Rep_digest padding)) (Suc rounds)"
    by (subst merkle_loop.simps) (simp only: gt if_True Let_def)
  ultimately show ?thesis by blast
qed

lemma merkle_loop_root_length:
  "length pieces = 20 * n \<Longrightarrow> 0 < n \<Longrightarrow> length (fst (merkle_loop sha1 pieces padding rounds)) = 20"
proof (induction n arbitrary: pieces padding rounds rule: less_induct)
  case (less n)
  show ?case
  proof (cases "n = 1")
    case True
    with less.prems show ?thesis by (subst merkle_loop.simps) simp
  next
    case False
    with less.prems have n: "1 < n" by simp
    from merkle_loop_round[OF less.prems(1) n, of sha1 padding rounds]
    obtain pieces' where p: "length pieces' = 20 * ((n + 1) div 2)" "(n + 1) div 2 < n"
      "merkle_loop sha1 pieces padding rounds
         = merkle_loop sha1 pieces' (sha1 (Rep_digest padding @ Rep_digest padding)) (Suc rounds)"
      by blast
    have "0 < (n + 1) div 2" using n by simp
    from less.IH[OF p(2) p(1) this] p(3) show ?thesis by simp
  qed
qed

section \<open>Properties of the chunk hasher\<close>

lemma digests_simps [simp]:
  "digests sha1 [] = []" "digests sha1 (c # ws) = Rep_digest (sha1 c) @ digests sha1 ws"
  "digests sha1 (us @ ws) = digests sha1 us @ digests sha1 ws"
  by (simp_all add: digests_def)

lemma spec_windows_Nil [simp]: "spec_windows L [] = []"
  by (subst spec_windows.simps) simp

lemma spec_windows_block:
  "0 < L \<Longrightarrow> length X = L \<Longrightarrow> spec_windows L (X @ Y) = X # spec_windows L Y"
  by (subst spec_windows.simps) auto

lemma spec_windows_short:
  "0 < L \<Longrightarrow> length Y \<le> L \<Longrightarrow> Y \<noteq> [] \<Longrightarrow> spec_windows L Y = [Y]"
  by (subst spec_windows.simps) simp

lemma spec_windows_blocks:
  "0 < L \<Longrightarrow> length W = L * q \<Longrightarrow>
   spec_windows L (W @ Y) = spec_windows L W @ spec_windows L Y"
proof (induction q arbitrary: W)
  case 0
  then show ?case by simp
next
  case (Suc q)
  let ?X = "take L W" and ?W' = "drop L W"
  have X: "length ?X = L" using Suc.prems by simp
  have W': "length ?W' = L * q" using Suc.prems by simp
  have W: "W = ?X @ ?W'" by simp
  have "spec_windows L (W @ Y) = spec_windows L (?X @ (?W' @ Y))"
    by (simp flip: append_assoc)
  also have "\<dots> = ?X # spec_windows L (?W' @ Y)"
    by (rule spec_windows_block[OF Suc.prems(1) X])
  also have "\<dots> = ?X # spec_windows L ?W' @ spec_windows L Y"
    using Suc.IH[OF Suc.prems(1) W'] by simp
  finally have 1: "spec_windows L (W @ Y) = ?X # spec_windows L ?W' @ spec_windows L Y" .
  have "?X # spec_windows L ?W' = spec_windows L (?X @ ?W')"
    by (rule spec_windows_block[OF Suc.prems(1) X, symmetric])
  with 1 show ?case by simp
qed

lemma whole_remainder: "whole L s @ remainder L s = s"
  by (simp add: whole_def remainder_def)

lemma length_whole: "length (whole L s) = L * (length s div L)"
  by (simp add: whole_def)

lemma length_remainder: "0 < L \<Longrightarrow> length (remainder L s) < L"
  by (simp add: remainder_def minus_mult_div_eq_mod)

lemma whole_short [simp]: "length s < L \<Longrightarrow> whole L s = []"
  by (simp add: whole_def)

lemma remainder_short [simp]: "length s < L \<Longrightarrow> remainder L s = s"
  by (simp add: remainder_def)

lemma whole_blocks:
  assumes "0 < L" "length W = L * q"
  shows "whole L (W @ Y) = W @ whole L Y" and "remainder L (W @ Y) = remainder L Y"
proof -
  have d: "(length W + length Y) div L = q + length Y div L"
    using assms by simp
  show "whole L (W @ Y) = W @ whole L Y"
    using assms by (simp add: whole_def d distrib_left)
  show "remainder L (W @ Y) = remainder L Y"
    using assms by (simp add: remainder_def d distrib_left)
qed

lemma spec_windows_whole_remainder:
  assumes "0 < L"
  shows "spec_windows L s
         = spec_windows L (whole L s) @ (if remainder L s \<noteq> [] then [remainder L s] else [])"
proof -
  have "spec_windows L s = spec_windows L (whole L s @ remainder L s)"
    by (simp add: whole_remainder)
  also have "\<dots> = spec_windows L (whole L s) @ spec_windows L (remainder L s)"
    by (rule spec_windows_blocks[OF assms length_whole])
  also have "spec_windows L (remainder L s) = (if remainder L s \<noteq> [] then [remainder L s] else [])"
    using spec_windows_short[OF assms, of "remainder L s"] length_remainder[OF assms, of s]
    by simp
  finally show ?thesis .
qed

lemma f_read_pos: "0 \<le> n \<Longrightarrow> f_read n f = (take (nat n) f, drop (nat n) f)"
  by (simp add: f_read_def)

lemma hash_single_file_windows:
  "0 < L \<Longrightarrow>
   hash_single_file sha1 L f pieces md5sum
   = (pieces @ digests sha1 (spec_windows (nat L) f), map_option (\<lambda>m. m @ f) md5sum)"
proof (induction sha1 L f pieces md5sum rule: hash_single_file.induct)
  case (1 sha1 L f pieces md5sum)
  let ?n = "nat L"
  have n: "0 < ?n" "int ?n = L" using 1(2) by simp_all
  have rd: "f_read L f = (take ?n f, drop ?n f)" using 1(2) by (simp add: f_read_pos)
  show ?case
  proof (cases "f = []")
    case True
    then show ?thesis
      by (subst hash_single_file.simps) (simp add: f_read_def option.map_ident)
  next
    case False
    then have ne: "length (take ?n f) \<noteq> 0" using n by simp
    show ?thesis
    proof (cases "int (length (take ?n f)) < L")
      case True
      then have short: "length f < ?n" using n by simp
      then have w: "spec_windows ?n f = [f]"
        using spec_windows_short[OF n(1), of f] False by simp
      from True short ne show ?thesis
        by (subst hash_single_file.simps) (simp add: rd w)
    next
      case F2: False
      then have full: "length (take ?n f) = ?n" using n by simp
      have w: "spec_windows ?n f = take ?n f # spec_windows ?n (drop ?n f)"
        using spec_windows_block[OF n(1) full, of "drop ?n f"] by simp
      have m: "map_option (\<lambda>m. m @ drop ?n f) (map_option (\<lambda>m. m @ take ?n f) md5sum)
          = map_option (\<lambda>m. m @ f) md5sum"
        by (cases md5sum) simp_all
      have "hash_single_file sha1 L f pieces md5sum
          = hash_single_file sha1 L (drop ?n f) (pieces @ Rep_digest (sha1 (take ?n f)))
              (map_option (\<lambda>m. m @ take ?n f) md5sum)"
        using ne F2 by (subst hash_single_file.simps) (simp add: rd)
      also have "\<dots> = ((pieces @ Rep_digest (sha1 (take ?n f))) @ digests sha1 (spec_windows ?n (drop ?n f)),
                        map_option (\<lambda>m. m @ drop ?n f) (map_option (\<lambda>m. m @ take ?n f) md5sum))"
        by (rule 1(1)[OF rd[symmetric] ne F2 1(2)])
      finally show ?thesis by (simp add: w m)
    qed
  qed
qed


lemma hash_dir_file_windows:
  "0 < L \<Longrightarrow> int (length incomplete_chunk) < L \<Longrightarrow>
   hash_dir_file sha1 L f pieces incomplete_chunk md5sum
   = (pieces @ digests sha1 (spec_windows (nat L) (whole (nat L) (incomplete_chunk @ f))),
      remainder (nat L) (incomplete_chunk @ f),
      map_option (\<lambda>m. m @ f) md5sum)"
proof (induction sha1 L f pieces incomplete_chunk md5sum rule: hash_dir_file.induct)
  case (1 sha1 L f pieces inc md5sum)
  let ?n = "nat L" and ?k = "nat L - length inc"
  have n: "0 < ?n" "int ?n = L" using 1(2) by simp_all
  have k: "0 < ?k" "nat (L - int (length inc)) = ?k" "length inc < ?n" using 1(2,3) by auto
  have rd: "f_read (L - int (length inc)) f = (take ?k f, drop ?k f)"
    using 1(3) k(2) by (simp add: f_read_pos)
  show ?case
  proof (cases "f = []")
    case True
    with k(3) show ?thesis
      by (subst hash_dir_file.simps) (simp add: f_read_def option.map_ident)
  next
    case False
    then have ne: "length (take ?k f) \<noteq> 0" using k(1) by simp
    show ?thesis
    proof (cases "int (length inc) + int (length (take ?k f)) < L")
      case True
      then have short: "length f < ?k" using n k by (simp add: min_def split: if_splits)
      then have tk: "take ?k f = f" by simp
      from short have "length (inc @ f) < ?n" by simp
      then have "whole ?n (inc @ f) = []" "remainder ?n (inc @ f) = inc @ f" by simp_all
      with True ne tk show ?thesis
        by (subst hash_dir_file.simps) (simp add: rd)
    next
      case F2: False
      then have full: "length (take ?k f) = ?k" using n k by (simp add: min_def split: if_splits)
      have X: "length (inc @ take ?k f) = ?n * 1" using full k(3) by simp
      have data: "inc @ f = (inc @ take ?k f) @ drop ?k f" by simp
      have w: "whole ?n (inc @ f) = (inc @ take ?k f) @ whole ?n (drop ?k f)"
        and r: "remainder ?n (inc @ f) = remainder ?n (drop ?k f)"
        using whole_blocks[OF n(1) X, of "drop ?k f"] by (simp_all only: data[symmetric])
      have sw: "spec_windows ?n (whole ?n (inc @ f))
          = (inc @ take ?k f) # spec_windows ?n (whole ?n (drop ?k f))"
        unfolding w using spec_windows_block[OF n(1), of "inc @ take ?k f"] X by simp
      have m: "map_option (\<lambda>m. m @ drop ?k f) (map_option (\<lambda>m. m @ take ?k f) md5sum)
          = map_option (\<lambda>m. m @ f) md5sum"
        by (cases md5sum) simp_all
      have "hash_dir_file sha1 L f pieces inc md5sum
          = hash_dir_file sha1 L (drop ?k f) (pieces @ Rep_digest (sha1 (inc @ take ?k f))) []
              (map_option (\<lambda>m. m @ take ?k f) md5sum)"
        using ne F2 by (subst hash_dir_file.simps) (simp add: rd)
      also have "\<dots> = ((pieces @ Rep_digest (sha1 (inc @ take ?k f))) @
                          digests sha1 (spec_windows ?n (whole ?n ([] @ drop ?k f))),
                        remainder ?n ([] @ drop ?k f),
                        map_option (\<lambda>m. m @ drop ?k f) (map_option (\<lambda>m. m @ take ?k f) md5sum))"
        using 1(1)[OF rd[symmetric] ne F2 1(2)] 1(2) by simp
      finally show ?thesis by (simp add: sw r m)
    qed
  qed
qed

lemma hash_dir_windows:
  assumes "0 < L" "int (length incomplete_chunk) < L" "\<forall>(relpath, fl) \<in> set walk. readable fl"
  shows "\<exists>files'. hash_dir sha1 md5_hexdigest L md5sum walk files pieces incomplete_chunk
     = Inr (files',
            pieces @ digests sha1 (spec_windows (nat L) (whole (nat L) (incomplete_chunk @ walk_stream walk))),
            remainder (nat L) (incomplete_chunk @ walk_stream walk))"
  using assms
proof (induction walk arbitrary: files pieces incomplete_chunk)
  case Nil
  then show ?case by (simp add: walk_stream_def)
next
  case (Cons a walk)
  obtain relpath fl where a: "a = (relpath, fl)" by (cases a)
  let ?n = "nat L" and ?inc = incomplete_chunk
  let ?D = "?inc @ content fl"
  let ?S = "walk_stream walk"
  have n: "0 < ?n" using Cons.prems(1) by simp
  have rdb: "readable fl" using Cons.prems(3) a by simp
  have f: "hash_dir_file sha1 L (content fl) pieces ?inc (if md5sum then Some [] else None)
      = (pieces @ digests sha1 (spec_windows ?n (whole ?n ?D)), remainder ?n ?D,
         map_option (\<lambda>m. m @ content fl) (if md5sum then Some [] else None))"
    by (rule hash_dir_file_windows[OF Cons.prems(1,2)])
  have lr: "int (length (remainder ?n ?D)) < L"
    using length_remainder[OF n, of ?D] by simp
  have rest: "\<forall>(relpath, fl) \<in> set walk. readable fl" using Cons.prems(3) by simp
  have W: "length (whole ?n ?D) = ?n * (length ?D div ?n)" by (rule length_whole)
  have split: "?inc @ walk_stream (a # walk) = whole ?n ?D @ (remainder ?n ?D @ ?S)"
    using whole_remainder[of ?n ?D] by (simp add: walk_stream_def a)
  have w: "whole ?n (?inc @ walk_stream (a # walk)) = whole ?n ?D @ whole ?n (remainder ?n ?D @ ?S)"
    and r: "remainder ?n (?inc @ walk_stream (a # walk)) = remainder ?n (remainder ?n ?D @ ?S)"
    unfolding split using whole_blocks[OF n W] by simp_all
  have L2: "length (whole ?n (remainder ?n ?D @ ?S)) = ?n * (length (remainder ?n ?D @ ?S) div ?n)"
    by (rule length_whole)
  have sw: "spec_windows ?n (whole ?n (?inc @ walk_stream (a # walk)))
      = spec_windows ?n (whole ?n ?D) @ spec_windows ?n (whole ?n (remainder ?n ?D @ ?S))"
    unfolding w by (rule spec_windows_blocks[OF n W])
  from Cons.IH[OF Cons.prems(1) lr rest]
  obtain files' where
    "hash_dir sha1 md5_hexdigest L md5sum walk
       (files @ [PyDict (case map_option (\<lambda>m. m @ content fl) (if md5sum then Some [] else None) of
                           None \<Rightarrow> file_dict relpath fl
                         | Some m \<Rightarrow> dict_setitem (file_dict relpath fl)
                                      (KBytes ''md5sum'') (PyBytes (md5_hexdigest m)))])
       (pieces @ digests sha1 (spec_windows ?n (whole ?n ?D))) (remainder ?n ?D)
     = Inr (files',
            (pieces @ digests sha1 (spec_windows ?n (whole ?n ?D))) @
              digests sha1 (spec_windows ?n (whole ?n (remainder ?n ?D @ ?S))),
            remainder ?n (remainder ?n ?D @ ?S))"
    by blast
  with f rdb show ?case by (simp add: a sw[unfolded a] r[unfolded a])
qed

lemma digests_whole_remainder:
  assumes "0 < L"
  shows "(if remainder L s \<noteq> []
          then (pieces @ digests sha1 (spec_windows L (whole L s))) @ Rep_digest (sha1 (remainder L s))
          else pieces @ digests sha1 (spec_windows L (whole L s)))
         = pieces @ digests sha1 (spec_windows L s)"
  by (subst (3) spec_windows_whole_remainder[OF assms]) simp


lemma spec_windows_length:
  "0 < n \<Longrightarrow> length (spec_windows n s) = (length s + n - 1) div n"
proof (induction n s rule: spec_windows.induct)
  case (1 n s)
  show ?case
  proof (cases "s = []")
    case True
    with 1(2) show ?thesis by simp
  next
    case False
    with 1 have IH: "length (spec_windows n (drop n s)) = (length (drop n s) + n - 1) div n"
      by simp
    have sw: "spec_windows n s = take n s # spec_windows n (drop n s)"
      using False 1(2) by (subst spec_windows.simps) simp
    show ?thesis
    proof (cases "n \<le> length s")
      case True
      with False have e1: "length s + n - 1 = (length s - 1) + n"
        and e2: "length s - n + n - 1 = length s - 1"
        by (cases s; simp)+
      have "(length s + n - 1) div n = Suc ((length s - n + n - 1) div n)"
        unfolding e1 e2 using 1(2) div_add_self2[of n "length s - 1"] by simp
      with IH sw show ?thesis by simp
    next
      case F: False
      with False have e: "length s + n - 1 = n + (length s - 1)" and lt: "length s - 1 < n"
        by (cases s; simp)+
      have "(length s + n - 1) div n = 1"
        unfolding e using 1(2) lt div_add_self1[of n "length s - 1"] by simp
      with IH sw F show ?thesis by simp
    qed
  qed
qed

lemma spec_windows_nonempty: "[] \<notin> set (spec_windows n s)"
proof (induction n s rule: spec_windows.induct)
  case (1 n s)
  show ?case
  proof (cases "n = 0 \<or> s = []")
    case True
    then show ?thesis by (subst spec_windows.simps) simp
  next
    case False
    with 1 show ?thesis by (subst spec_windows.simps) simp
  qed
qed

lemma spec_windows_3:
  assumes "0 < n" "length s = 3 * n"
  shows "spec_windows n s = [take n s, take n (drop n s), drop (2 * n) s]"
proof -
  have 1: "spec_windows n s = take n s # spec_windows n (drop n s)"
    using assms by (subst spec_windows.simps) auto
  have 2: "spec_windows n (drop n s) = take n (drop n s) # spec_windows n (drop n (drop n s))"
    using assms by (subst spec_windows.simps) auto
  have 3: "spec_windows n (drop n (drop n s)) = [drop (2 * n) s]"
    using spec_windows_short[OF assms(1), of "drop n (drop n s)"] assms
    by (simp add: mult_2)
  from 1 2 3 show ?thesis by simp
qed

lemma spec_windows_3_1:
  assumes "0 < n" "length s = 3 * n + 1"
  shows "spec_windows n s = [take n s, take n (drop n s), take n (drop (2 * n) s), drop (3 * n) s]"
proof -
  have 1: "spec_windows n s = take n s # spec_windows n (drop n s)"
    using assms by (subst spec_windows.simps) auto
  have 2: "spec_windows n (drop n s) = take n (drop n s) # spec_windows n (drop (2 * n) s)"
    using assms by (subst spec_windows.simps) (auto simp: mult_2)
  have 3: "spec_windows n (drop (2 * n) s) = take n (drop (2 * n) s) # spec_windows n (drop (3 * n) s)"
    using assms by (subst spec_windows.simps) (auto simp: add.commute)
  have 4: "spec_windows n (drop (3 * n) s) = [drop (3 * n) s]"
    using spec_windows_short[OF assms(1), of "drop (3 * n) s"] assms by simp
  from 1 2 3 4 show ?thesis by simp
qed

section \<open>Properties of the info dict\<close>

lemma hex_byte_inj: "hex_byte c = hex_byte d \<Longrightarrow> c = d"
proof -
  assume h: "hex_byte c = hex_byte d"
  have dist: "distinct hexdigits" and len: "length hexdigits = 16"
    by (simp_all add: hexdigits_def)
  have c: "(of_char c :: nat) div 16 < 16" "(of_char c :: nat) mod 16 < 16"
    using nat_of_char_less_256[of c] by presburger+
  have d: "(of_char d :: nat) div 16 < 16" "(of_char d :: nat) mod 16 < 16"
    using nat_of_char_less_256[of d] by presburger+
  from h have "hexdigits ! (of_char c div 16) = hexdigits ! (of_char d div 16)"
    and "hexdigits ! (of_char c mod 16) = hexdigits ! (of_char d mod 16)"
    by (simp_all add: hex_byte_def)
  with c d have "(of_char c :: nat) div 16 = of_char d div 16"
    and "(of_char c :: nat) mod 16 = of_char d mod 16"
    by (simp_all add: nth_eq_iff_index_eq[OF dist] len)
  then have "(of_char c :: nat) = of_char d"
    by (metis div_mult_mod_eq)
  then show ?thesis by simp
qed

lemma hexlify_inj: "hexlify a = hexlify b \<Longrightarrow> a = b"
proof (induction a arbitrary: b)
  case Nil
  then show ?case by (cases b) (simp_all add: hexlify_def hex_byte_def)
next
  case (Cons x a)
  then obtain y b' where b: "b = y # b'"
    by (cases b) (simp_all add: hexlify_def hex_byte_def)
  from Cons.prems b have "hex_byte x = hex_byte y" "hexlify a = hexlify b'"
    by (simp_all add: hexlify_def hex_byte_def)
  with Cons.IH[of b'] hex_byte_inj b show ?case by simp
qed

lemma dict_setitem_keys:
  "map fst (dict_setitem d k v) = (if k \<in> set (map fst d) then map fst d else map fst d @ [k])"
proof (induction d)
  case Nil
  then show ?case by simp
next
  case (Cons a d)
  obtain k' v' where a: "a = (k', v')" by (cases a)
  show ?case
  proof (cases "k' = k")
    case True
    then show ?thesis by (simp add: a)
  next
    case False
    with Cons show ?thesis by (simp add: a)
  qed
qed

lemma dict_setitem_set:
  "set (dict_setitem d k v) \<subseteq> insert (k, v) (set d)"
proof (induction d)
  case Nil
  then show ?case by simp
next
  case (Cons a d)
  obtain k' v' where a: "a = (k', v')" by (cases a)
  from Cons show ?case by (auto simp: a)
qed

lemma map_of_dict_setitem: "map_of (dict_setitem d k v) = (map_of d)(k \<mapsto> v)"
  by (induction d) (auto simp: fun_eq_iff)

lemma constructible_dict_setitem:
  assumes "constructible (PyDict d)" "constructible v"
  shows "constructible (PyDict (dict_setitem d (KBytes k) v))"
proof -
  have "distinct (map fst (dict_setitem d (KBytes k) v))"
    using assms(1) by (simp add: dict_setitem_keys)
  moreover have "is_KBytes k' \<and> constructible v'"
    if "(k', v') \<in> set (dict_setitem d (KBytes k) v)" for k' v'
  proof -
    from that dict_setitem_set[of d "KBytes k" v]
    have "(k', v') = (KBytes k, v) \<or> (k', v') \<in> set d" by auto
    with assms show ?thesis by (auto simp: list_all_iff)
  qed
  ultimately show ?thesis by (auto simp: list_all_iff)
qed

lemma nonneg_dict_setitem:
  assumes "nonneg (PyDict d)" "nonneg v"
  shows "nonneg (PyDict (dict_setitem d k v))"
proof -
  have "nonneg v'" if "(k', v') \<in> set (dict_setitem d k v)" for k' v'
  proof -
    from that dict_setitem_set[of d k v]
    have "(k', v') = (k, v) \<or> (k', v') \<in> set d" by auto
    with assms show ?thesis by (auto simp: list_all_iff)
  qed
  then show ?thesis by (auto simp: list_all_iff)
qed

lemma constructible_empty [simp]: "constructible (PyDict [])" "nonneg (PyDict [])"
  by simp_all

lemma well_formed_simps [simp]:
  "well_formed (PyDict [])" "well_formed (PyBytes b)" "well_formed (PyInt i) = (0 \<le> i)"
  "well_formed (PyList l) = list_all well_formed l"
  by (auto simp: well_formed_def list_all_iff)

lemma well_formed_dict_setitem:
  "well_formed (PyDict d) \<Longrightarrow> well_formed v \<Longrightarrow> well_formed (PyDict (dict_setitem d (KBytes k) v))"
  unfolding well_formed_def using constructible_dict_setitem nonneg_dict_setitem by blast

lemma well_formed_file_dict: "well_formed (PyDict (file_dict relpath fl))"
  unfolding file_dict_def
  by (intro well_formed_dict_setitem) (simp_all add: list_all_iff)

lemma well_formed_hash_dir:
  assumes "hash_dir sha1 md5_hexdigest L md5sum walk files pieces inc = Inr (files', pieces', inc')"
    and "list_all well_formed files"
  shows "list_all well_formed files'"
  using assms
proof (induction walk arbitrary: files pieces inc)
  case Nil
  then show ?case by simp
next
  case (Cons a walk)
  obtain relpath fl where a: "a = (relpath, fl)" by (cases a)
  obtain p1 i1 m1 where h: "hash_dir_file sha1 L (content fl) pieces inc (if md5sum then Some [] else None)
      = (p1, i1, m1)" by (cases "hash_dir_file sha1 L (content fl) pieces inc (if md5sum then Some [] else None)")
  let ?fd = "PyDict (case m1 of None \<Rightarrow> file_dict relpath fl
                     | Some m \<Rightarrow> dict_setitem (file_dict relpath fl) (KBytes ''md5sum'') (PyBytes (md5_hexdigest m)))"
  have fd: "well_formed ?fd"
    by (cases m1) (simp_all add: well_formed_file_dict well_formed_dict_setitem)
  from Cons.prems(1) a h have rd: "readable fl"
    and rec: "hash_dir sha1 md5_hexdigest L md5sum walk (files @ [?fd]) p1 i1 = Inr (files', pieces', inc')"
    by (auto split: if_splits)
  from Cons.prems(2) fd have "list_all well_formed (files @ [?fd])" by simp
  from Cons.IH[OF rec this] show ?case .
qed

lemma info_head_props:
  "0 \<le> opt_piece_length opts \<Longrightarrow> well_formed (PyDict (info_head name opts))"
  "map_of (info_head name opts) (KBytes ''piece length'') = Some (PyInt (opt_piece_length opts))"
  by (auto simp: info_head_def Let_def well_formed_def)

lemma hash_content_props:
  assumes "hash_content w filename opts info = Inr (info1, pieces)"
  shows "well_formed (PyDict info) \<Longrightarrow> well_formed (PyDict info1)"
    and "constructible (PyDict info) \<Longrightarrow> constructible (PyDict info1)"
    and "map_of info1 (KBytes ''piece length'') = map_of info (KBytes ''piece length'')"
proof -
  consider (none) "w_fs w filename = None"
    | (regular) fl where "w_fs w filename = Some (FileNode fl)"
    | (dir) walk where "w_fs w filename = Some (DirNode walk)"
    by (cases "w_fs w filename") (auto, metis node.exhaust)
  note cs = this
  have files: "\<exists>files. info1 = dict_setitem info (KBytes ''files'') (PyList files) \<and>
                 list_all well_formed files"
    if "w_fs w filename = Some (DirNode walk)" for walk
  proof -
    from assms that obtain files inc p where
      h: "hash_dir (w_sha1 w) (w_md5_hexdigest w) (opt_piece_length opts) (opt_md5sum opts) walk [] [] []
          = Inr (files, p, inc)"
      and i: "info1 = dict_setitem info (KBytes ''files'') (PyList files)"
      by (auto simp: hash_content_def split: sum.splits)
    from well_formed_hash_dir[OF h] i show ?thesis by (intro exI[of _ files]) simp
  qed
  have one: "info1 = dict_setitem info (KBytes ''length'') (PyInt (int (length (content fl)))) \<or>
        (\<exists>m. info1 = dict_setitem (dict_setitem info (KBytes ''length'') (PyInt (int (length (content fl)))))
                 (KBytes ''md5sum'') (PyBytes m))"
    if "w_fs w filename = Some (FileNode fl)" for fl
    using assms that
    by (auto simp: hash_content_def Let_def split: if_splits prod.splits option.splits)
  show "well_formed (PyDict info1)" if wf: "well_formed (PyDict info)"
  proof (cases rule: cs)
    case none
    with assms wf show ?thesis by (simp add: hash_content_def)
  next
    case (regular fl)
    have 1: "well_formed (PyDict (dict_setitem info (KBytes ''length'') (PyInt (int (length (content fl))))))"
      by (rule well_formed_dict_setitem[OF wf]) simp
    from one[OF regular] 1 show ?thesis by (auto intro!: well_formed_dict_setitem)
  next
    case (dir walk)
    from files[OF dir] wf show ?thesis by (auto intro!: well_formed_dict_setitem)
  qed
  show "constructible (PyDict info1)" if c: "constructible (PyDict info)"
  proof (cases rule: cs)
    case none
    with assms c show ?thesis by (simp add: hash_content_def)
  next
    case (regular fl)
    have 1: "constructible (PyDict (dict_setitem info (KBytes ''length'') (PyInt (int (length (content fl))))))"
      by (rule constructible_dict_setitem[OF c]) simp
    from one[OF regular] show ?thesis
    proof
      assume "info1 = dict_setitem info (KBytes ''length'') (PyInt (int (length (content fl))))"
      with 1 show ?thesis by simp
    next
      assume "\<exists>m. info1 = dict_setitem (dict_setitem info (KBytes ''length'') (PyInt (int (length (content fl)))))
                 (KBytes ''md5sum'') (PyBytes m)"
      then obtain m where "info1 = dict_setitem (dict_setitem info (KBytes ''length'') (PyInt (int (length (content fl)))))
                 (KBytes ''md5sum'') (PyBytes m)" by blast
      moreover have "constructible (PyBytes m)" by simp
      ultimately show ?thesis using constructible_dict_setitem[OF 1] by simp
    qed
  next
    case (dir walk)
    from files[OF dir] obtain files where i: "info1 = dict_setitem info (KBytes ''files'') (PyList files)"
      and f: "list_all well_formed files" by blast
    from f have "constructible (PyList files)" by (simp add: well_formed_def list_all_iff)
    from constructible_dict_setitem[OF c this] i show ?thesis by simp
  qed
  show "map_of info1 (KBytes ''piece length'') = map_of info (KBytes ''piece length'')"
  proof (cases rule: cs)
    case none
    with assms show ?thesis by (simp add: hash_content_def)
  next
    case (regular fl)
    from one[OF regular] show ?thesis by (auto simp: map_of_dict_setitem)
  next
    case (dir walk)
    from files[OF dir] show ?thesis by (auto simp: map_of_dict_setitem)
  qed
qed

lemma Metainfo_info:
  assumes "Metainfo w filename opts = Inr m"
  shows "build_info w filename opts = Inr (mi_info m)" and "mi_infohash m = None"
  using assms by (auto simp: Metainfo_def split: sum.splits)

lemma build_info_props:
  assumes "build_info w filename opts = Inr info"
  shows "constructible (PyDict info)"
    and "0 \<le> opt_piece_length opts \<Longrightarrow> nonneg (PyDict info)"
    and "map_of info (KBytes ''piece length'') = Some (PyInt (opt_piece_length opts))"
proof -
  from assms obtain info1 pieces where
    h: "hash_content w filename opts (info_head (w_basename_normpath w filename) opts)
          = Inr (info1, pieces)"
    and i: "info = (if opt_merkle opts
                        then dict_setitem info1 (KBytes ''root hash'')
                               (PyBytes (fst (merkle_loop (w_sha1 w) pieces zero_digest 0)))
                        else dict_setitem info1 (KBytes ''pieces'') (PyBytes pieces))"
    by (auto simp: build_info_def split: sum.splits)
  show "map_of info (KBytes ''piece length'') = Some (PyInt (opt_piece_length opts))"
    using hash_content_props(3)[OF h] info_head_props(2)[of "w_basename_normpath w filename" opts]
    by (simp add: i map_of_dict_setitem)
  show "nonneg (PyDict info)" if "0 \<le> opt_piece_length opts"
  proof -
    have "well_formed (PyDict info1)"
      by (rule hash_content_props(1)[OF h info_head_props(1)[OF that]])
    then have "well_formed (PyDict info)"
      unfolding i by (auto intro!: well_formed_dict_setitem)
    then show ?thesis by (simp add: well_formed_def)
  qed
  show "constructible (PyDict info)"
  proof -
    have c0: "constructible (PyDict (info_head (w_basename_normpath w filename) opts))"
      by (auto simp: info_head_def Let_def)
    have c1: "constructible (PyDict info1)"
      by (rule hash_content_props(2)[OF h c0])
    have "constructible (PyBytes x)" for x by simp
    from constructible_dict_setitem[OF c1 this] show ?thesis unfolding i by simp
  qed
qed

lemma build_info_independent:
  assumes "w_sha1 w' = w_sha1 w" "w_md5_hexdigest w' = w_md5_hexdigest w"
    and "w_basename_normpath w' = w_basename_normpath w" "w_fs w' = w_fs w"
    and "opt_piece_length opts' = opt_piece_length opts" "opt_private opts' = opt_private opts"
    and "opt_md5sum opts' = opt_md5sum opts" "opt_merkle opts' = opt_merkle opts"
  shows "build_info w' filename opts' = build_info w filename opts"
  unfolding build_info_def hash_content_def info_head_def assms ..

lemma canon_dict_lookup:
  assumes "canon (PyDict a) = canon (PyDict b)" "distinct (map fst a)" "distinct (map fst b)"
  shows "map_option canon (map_of a k) = map_option canon (map_of b k)"
proof -
  let ?f = "\<lambda>(k, v). (k, canon v)"
  have k: "map fst (map ?f xs) = map fst xs" for xs :: "(pykey \<times> pyval) list"
    by (induction xs) auto
  from assms(1) have "sort_key (un_KBytes \<circ> fst) (map ?f a) = sort_key (un_KBytes \<circ> fst) (map ?f b)"
    by simp
  then have "set (sort_key (un_KBytes \<circ> fst) (map ?f a)) = set (sort_key (un_KBytes \<circ> fst) (map ?f b))"
    by (rule arg_cong)
  then have "set (map ?f a) = set (map ?f b)" by (simp only: set_sort)
  moreover have "distinct (map fst (map ?f a))" "distinct (map fst (map ?f b))"
    using assms(2,3) by (simp_all only: k)
  ultimately have "map_of (map ?f a) = map_of (map ?f b)"
    by (simp only: map_of_inject_set)
  then have "(map_option canon \<circ> map_of a) k = (map_option canon \<circ> map_of b) k"
    by (simp add: map_of_map)
  then show ?thesis by simp
qed

lemma enc_dict_inj_lookup:
  assumes "constructible (PyDict a)" "nonneg (PyDict a)"
    and "constructible (PyDict b)" "nonneg (PyDict b)"
    and "enc (PyDict a) = enc (PyDict b)"
  shows "map_option canon (map_of a k) = map_option canon (map_of b k)"
proof -
  from aux_enc[OF assms(1,2), of "[]"] aux_enc[OF assms(3,4), of "[]"] assms(5)
  have "canon (PyDict a) = canon (PyDict b)" by (simp del: canon.simps enc.simps)
  from canon_dict_lookup[OF this] assms(1,3) show ?thesis by simp
qed

lemma demo_build_info_4:
  "build_info (sample_world demo_fs) ''f'' (default_options\<lparr>opt_piece_length := 4\<rparr>)
   = Inr [(KBytes ''piece length'', PyInt 4), (KBytes ''name'', PyBytes ''f''),
          (KBytes ''length'', PyInt 10),
          (KBytes ''pieces'',
           PyBytes ''dcba................hgfe................ji..................'')]"
  by (simp add: build_info_def hash_content_def info_head_def sample_world_def demo_fs_def
      default_options_def hash_single_file.simps f_read_def sample_sha1.rep_eq Let_def)

lemma demo_build_info_3:
  "build_info (sample_world demo_fs) ''f'' (default_options\<lparr>opt_piece_length := 3\<rparr>)
   = Inr [(KBytes ''piece length'', PyInt 3), (KBytes ''name'', PyBytes ''f''),
          (KBytes ''length'', PyInt 10),
          (KBytes ''pieces'',
           PyBytes ''cba.................fed.................ihg.................j...................'')]"
  by (simp add: build_info_def hash_content_def info_head_def sample_world_def demo_fs_def
      default_options_def hash_single_file.simps f_read_def sample_sha1.rep_eq Let_def)

lemma demo_bencode_4:
  "bencode (PyDict [(KBytes ''piece length'', PyInt 4), (KBytes ''name'', PyBytes ''f''),
          (KBytes ''length'', PyInt 10),
          (KBytes ''pieces'',
           PyBytes ''dcba................hgfe................ji..................'')]) []
   = Inr ''d6:lengthi10e4:name1:f12:piece lengthi4e6:pieces60:dcba................hgfe................ji..................e''"
  by code_simp

lemma demo_bencode_3:
  "bencode (PyDict [(KBytes ''piece length'', PyInt 3), (KBytes ''name'', PyBytes ''f''),
          (KBytes ''length'', PyInt 10),
          (KBytes ''pieces'',
           PyBytes ''cba.................fed.................ihg.................j...................'')]) []
   = Inr ''d6:lengthi10e4:name1:f12:piece lengthi3e6:pieces80:cba.................fed.................ihg.................j...................e''"
  by code_simp


lemma Metainfo_ok:
  assumes "build_top (w_time w) opts = Inr self" "build_info w filename opts = Inr info"
  shows "\<exists>m. Metainfo w filename opts = Inr m"
  using assms by (simp add: Metainfo_def)

section \<open>Lemmas about the command line\<close>

lemma open_wb_cases:
  assumes "open_wb fs path = r"
  shows "(r = Inl OSError \<and> (\<exists>walk. fs path = Some (DirNode walk))) \<or>
         (\<exists>rd. r = Inr (fs(path \<mapsto> FileNode (RegFile [] rd))))"
  using assms by (auto simp: open_wb_def split: option.splits node.splits)

lemma main_write_unfold:
  "main_write w filename output func_args =
     (case open_wb (w_fs w) (infoname_of filename output) of
        Inl e \<Rightarrow> (w_fs w, Inl e)
      | Inr fs1 \<Rightarrow> (case Metainfo (w\<lparr>w_fs := fs1\<rparr>) filename func_args of
             Inl e \<Rightarrow> (fs1, Inl e)
           | Inr metainfo \<Rightarrow> (case bencode (PyDict (mi_items metainfo)) [] of
                  Inl e \<Rightarrow> (fs1, Inl e)
                | Inr b \<Rightarrow> (file_write fs1 (infoname_of filename output) b, Inr metainfo))))"
  unfolding main_write_def infoname_of_def Let_def by (rule refl)

lemma demo_open:
  "open_wb (w_fs (sample_world demo_fs)) (infoname_of ''f'' None)
   = Inr (demo_fs(''f.torrent'' \<mapsto> FileNode (RegFile [] True)))"
  by (simp add: open_wb_def sample_world_def demo_fs_def infoname_of_def truthy_def rstrip_def
      os_sep_def)

lemma demo_Metainfo:
  "\<exists>m. Metainfo (sample_world demo_fs\<lparr>w_fs := demo_fs(''f.torrent'' \<mapsto> FileNode (RegFile [] True))\<rparr>)
          ''f'' demo_options = Inr m \<and> mi_items m = demo_items"
  by (simp add: Metainfo_def build_top_def set_announce_def set_optional_def build_info_def
      hash_content_def info_head_def sample_world_def demo_fs_def demo_options_def
      default_options_def hash_single_file.simps f_read_def sample_sha1.rep_eq Let_def
      demo_items_def truthy_def fullname_def)

lemma demo_bencode_items: "bencode (PyDict demo_items) [] = Inr demo_torrent"
  by code_simp

lemma demo_main_result:
  "\<exists>m. snd (main_write (sample_world demo_fs) ''f'' None demo_options) = Inr m \<and>
       mi_items m = demo_items"
proof -
  from demo_Metainfo obtain m where
    m: "Metainfo (sample_world demo_fs\<lparr>w_fs := demo_fs(''f.torrent'' \<mapsto> FileNode (RegFile [] True))\<rparr>)
          ''f'' demo_options = Inr m" "mi_items m = demo_items"
    by blast
  have "snd (main_write (sample_world demo_fs) ''f'' None demo_options) = Inr m"
    by (simp add: main_write_unfold demo_open m demo_bencode_items del: bencode.simps)
  with m(2) show ?thesis by blast
qed

section \<open>Claims about the codec\<close>

text \<open>
  The decoder inverts the encoder on every constructible tree whose integers are
  non-negative: the decoded object is equal, in Python's sense, to the one encoded.
\<close>

lemma roundtrip_nonneg:
  assumes "constructible v" "nonneg v"
  shows "\<exists>e w. bencode v [] = Inr e \<and> bdecode e 0 = Inr w \<and> py_eq w v"
  using aux_enc[OF assms, of "[]"] bencode_enc[OF assms(1)] py_eq_canon[OF assms(1)]
  by (auto simp: bdecode_def)

text \<open>
  C1 (round trip, negative integers included). The integer \<open>-3\<close> is constructible and
  \<^verbatim>\<open>bencode\<close> writes it as \<^verbatim>\<open>i-3e\<close>, but \<^verbatim>\<open>bdecode\<close> does not return \<open>-3\<close> for that encoding:
  its integer loop reads digits only, stops at the minus sign, finds no \<^verbatim>\<open>e\<close> there and
  raises \<^verbatim>\<open>ValueError\<close>. The round trip fails on every tree that holds a negative integer.
\<close>

theorem roundtrip_negative_int_fails:
  "constructible (PyInt (- 3)) \<and> bencode (PyInt (- 3)) [] = Inr ''i-3e'' \<and>
   bdecode ''i-3e'' 0 = Inl (ValueError NotBencodedInt)"
  by (simp add: format_d_def format_nat.simps digit_char_def digits_def bdecode_def aux.simps
      aux_int_def)

text \<open>
  C5 (decoding starts at the offset and returns the value with the number of bytes
  consumed). The docstring of \<^verbatim>\<open>bdecode\<close> gives \<^verbatim>\<open>offset\<close> as the place where decoding starts,
  but the body never reads it: the result at any offset is the result at offset 0. In a
  buffer holding \<^verbatim>\<open>i1e\<close> and then \<^verbatim>\<open>i2e\<close>, decoding at offset 3 returns 1, the value at offset
  0, and not 2, the value encoded at offset 3, which decoding the bytes from offset 3 on
  returns. The result is the value alone.
\<close>

theorem bdecode_offset_ignored:
  "bencode (PyInt 1) [] = Inr ''i1e'' \<and> bencode (PyInt 2) [] = Inr ''i2e'' \<and>
   bdecode (''i1e'' @ ''i2e'') 3 = Inr (PyInt 1) \<and> PyInt 1 \<noteq> PyInt 2 \<and>
   bdecode (drop 3 (''i1e'' @ ''i2e'')) 0 = Inr (PyInt 2) \<and>
   (\<forall>data offset. bdecode data offset = bdecode data 0)"
  by (simp add: format_d_def format_nat.simps digit_char_def digits_def bdecode_def aux.simps
      aux_int_def int_of_digit_def)

text \<open>
  C10 (trailing bytes are ignored). Whenever \<^verbatim>\<open>bdecode\<close> accepts an input \<open>e\<close>, it accepts
  \<open>e\<close> followed by any bytes \<open>s\<close> and returns the same value: it stops after one complete
  value and raises nothing for what is left.
\<close>

theorem bdecode_ignores_trailing:
  "bdecode e k = Inr v \<Longrightarrow> bdecode (e @ s) k = Inr v"
  by (auto simp: bdecode_def split: sum.splits dest: aux_append(1)[where s = s])

theorem bdecode_ignores_trailing_witness:
  "bdecode ''l4:spam4:eggse'' 0 = Inr (PyList [PyBytes ''spam'', PyBytes ''eggs'']) \<and>
   bdecode (''l4:spam4:eggse'' @ ''i7e trailing'') 0 = Inr (PyList [PyBytes ''spam'', PyBytes ''eggs''])"
proof -
  have h: "bdecode ''l4:spam4:eggse'' 0 = Inr (PyList [PyBytes ''spam'', PyBytes ''eggs''])"
    by code_simp
  from bdecode_ignores_trailing[OF h, of "''i7e trailing''"] h show ?thesis by simp
qed

text \<open>
  C8 (malformed input is rejected). \<^verbatim>\<open>bdecode\<close> raises on \<^verbatim>\<open>3:ab\<close> (three bytes declared,
  two present), on \<^verbatim>\<open>i3x\<close> (no \<^verbatim>\<open>e\<close> after the digits) and on \<^verbatim>\<open>d3:keye\<close> (a key with no
  value). And an input that ends early is never accepted: if \<open>c\<close> is a complete encoding
  (the decoder accepts it and consumes all of it, as it does for a \<^verbatim>\<open>d\<close> or \<^verbatim>\<open>l\<close> container up
  to its closing \<^verbatim>\<open>e\<close>), then \<^verbatim>\<open>bdecode\<close> raises on every proper prefix of \<open>c\<close>; no truncated
  container is returned.
\<close>

theorem bdecode_rejects_malformed:
  "bdecode ''3:ab'' k = Inl (ValueError PrematureEnd) \<and>
   bdecode ''i3x'' k = Inl (ValueError NotBencodedInt) \<and>
   bdecode ''d3:keye'' k = Inl (ValueError NotBencodedData) \<and>
   (aux c None = Inr (v, []) \<longrightarrow> n < length c \<longrightarrow> (\<exists>err. bdecode (take n c) k = Inl err))"
proof -
  have 1: "bdecode ''3:ab'' k = Inl (ValueError PrematureEnd)"
    by (simp add: bdecode_def aux.simps aux_string_def digits_def int_of_digit_def read_def)
  have 2: "bdecode ''i3x'' k = Inl (ValueError NotBencodedInt)"
    by (simp add: bdecode_def aux.simps aux_int_def digits_def int_of_digit_def)
  have 3: "bdecode ''d3:keye'' k = Inl (ValueError NotBencodedData)"
    by (simp add: bdecode_def aux.simps aux_dict.simps aux_string_def digits_def
        int_of_digit_def read_def)
  have 4: "\<exists>err. bdecode (take n c) k = Inl err"
    if c: "aux c None = Inr (v, [])" and n: "n < length c"
  proof (cases "bdecode (take n c) k")
    case (Inl err)
    then show ?thesis by blast
  next
    case (Inr w)
    then obtain rest where "aux (take n c) None = Inr (w, rest)" by (auto simp: bdecode_Inr)
    from aux_append(1)[OF this, of "drop n c"] c have "drop n c = []" by simp
    with n show ?thesis by simp
  qed
  from 1 2 3 4 show ?thesis by blast
qed

theorem bdecode_rejects_malformed_witness:
  "aux ''d4:spaml1:a1:bee'' None = Inr (PyDict [(KBytes ''spam'', PyList [PyBytes ''a'', PyBytes ''b''])], []) \<and>
   (15 :: nat) < length ''d4:spaml1:a1:bee'' \<and>
   (\<exists>err. bdecode (take 15 ''d4:spaml1:a1:bee'') 0 = Inl err)"
proof -
  have c: "aux ''d4:spaml1:a1:bee'' None
      = Inr (PyDict [(KBytes ''spam'', PyList [PyBytes ''a'', PyBytes ''b''])], [])"
    by code_simp
  have n: "(15 :: nat) < length ''d4:spaml1:a1:bee''" by simp
  from bdecode_rejects_malformed[of 0 "''d4:spaml1:a1:bee''" _ 15] c n show ?thesis by blast
qed

text \<open>
  C7 (dict encoding is canonical). Two dicts with the same items, inserted in any two
  orders, have the same encoding; in particular a dict and the dict with its items
  inserted in reverse order. For byte-string keys and encodable values the bytes written
  are \<^verbatim>\<open>d\<close>, then for each item, in strictly ascending lexicographic order of the keys'
  bytes, the encoding of the key followed by the encoding of the value, then \<^verbatim>\<open>e\<close>; these
  encodings are the ones \<^verbatim>\<open>bencode\<close> returns for the key and for the value alone.
\<close>

theorem bencode_dict_canonical:
  assumes "distinct (map fst kvs)" "distinct (map fst kvs')" "set kvs' = set kvs"
  shows "bencode (PyDict kvs') buf = bencode (PyDict kvs) buf \<and>
         bencode (PyDict (rev kvs)) buf = bencode (PyDict kvs) buf \<and>
         (list_all (is_KBytes \<circ> fst) kvs \<and> list_all (\<lambda>(k, v). constructible v) kvs \<longrightarrow>
            (\<exists>items. set items = set kvs \<and> length items = length kvs \<and>
               sorted_wrt (<) (map (un_KBytes \<circ> fst) items) \<and>
               bencode (PyDict kvs) buf =
                 Inr (buf @ ''d'' @ concat (map (\<lambda>(k, v). enc (key_val k) @ enc v) items) @ ''e'') \<and>
               (\<forall>(k, v) \<in> set items.
                  bencode (key_val k) [] = Inr (enc (key_val k)) \<and>
                  enc (key_val k) = format_nat (length (un_KBytes k)) @ '':'' @ un_KBytes k \<and>
                  bencode v [] = Inr (enc v))))"
proof (intro conjI impI)
  show "bencode (PyDict kvs') buf = bencode (PyDict kvs) buf"
    using sorted_items_set_unique[OF assms] by simp
  have "distinct (map fst (rev kvs))" using assms(1) by (simp add: rev_map[symmetric])
  from sorted_items_set_unique[OF assms(1) this] 
  show "bencode (PyDict (rev kvs)) buf = bencode (PyDict kvs) buf" by simp
next
  assume h: "list_all (is_KBytes \<circ> fst) kvs \<and> list_all (\<lambda>(k, v). constructible v) kvs"
  then have kb: "list_all (is_KBytes \<circ> fst) kvs"
    and cv: "list_all (\<lambda>(k, v). constructible v) kvs" by simp_all
  let ?items = "sort_key (un_KBytes \<circ> fst) kvs"
  have c: "constructible (PyDict kvs)" using kb cv assms(1) by simp
  have "sorted (map (un_KBytes \<circ> fst) ?items)" by (rule sorted_sort_key)
  moreover have "distinct (map (un_KBytes \<circ> fst) ?items)"
    using distinct_key_bytes[OF assms(1) kb] by (simp add: distinct_map)
  ultimately have 1: "sorted_wrt (<) (map (un_KBytes \<circ> fst) ?items)"
    by (simp add: strict_sorted_iff)
  have 2: "set ?items = set kvs" "length ?items = length kvs" by simp_all
  have 3: "bencode (PyDict kvs) buf =
      Inr (buf @ ''d'' @ concat (map (\<lambda>(k, v). enc (key_val k) @ enc v) ?items) @ ''e'')"
    using bencode_enc_aux(1)[OF c, of buf] by simp
  have 4: "\<forall>(k, v) \<in> set ?items.
      bencode (key_val k) [] = Inr (enc (key_val k)) \<and>
      enc (key_val k) = format_nat (length (un_KBytes k)) @ '':'' @ un_KBytes k \<and>
      bencode v [] = Inr (enc v)"
  proof (clarify, intro conjI)
    fix k v assume "(k, v) \<in> set ?items"
    then have m: "(k, v) \<in> set kvs" by simp
    with kb obtain b where k: "k = KBytes b" by (cases k) (auto simp: list_all_iff)
    from m cv have "constructible v" by (auto simp: list_all_iff)
    then show "bencode v [] = Inr (enc v)" by (rule bencode_enc)
    have "constructible (key_val k)" by (simp add: k)
    then show "bencode (key_val k) [] = Inr (enc (key_val k))" by (rule bencode_enc)
    show "enc (key_val k) = format_nat (length (un_KBytes k)) @ '':'' @ un_KBytes k"
      by (simp add: k)
  qed
  from 1 2 3 4 show "\<exists>items. set items = set kvs \<and> length items = length kvs \<and>
               sorted_wrt (<) (map (un_KBytes \<circ> fst) items) \<and>
               bencode (PyDict kvs) buf =
                 Inr (buf @ ''d'' @ concat (map (\<lambda>(k, v). enc (key_val k) @ enc v) items) @ ''e'') \<and>
               (\<forall>(k, v) \<in> set items.
                  bencode (key_val k) [] = Inr (enc (key_val k)) \<and>
                  enc (key_val k) = format_nat (length (un_KBytes k)) @ '':'' @ un_KBytes k \<and>
                  bencode v [] = Inr (enc v))" by blast
qed

theorem bencode_dict_canonical_witness:
  "distinct (map fst [(KBytes ''spam'', PyBytes ''eggs''), (KBytes ''cow'', PyBytes ''moo'')]) \<and>
   distinct (map fst [(KBytes ''cow'', PyBytes ''moo''), (KBytes ''spam'', PyBytes ''eggs'')]) \<and>
   set [(KBytes ''cow'', PyBytes ''moo''), (KBytes ''spam'', PyBytes ''eggs'')]
     = set [(KBytes ''spam'', PyBytes ''eggs''), (KBytes ''cow'', PyBytes ''moo'')] \<and>
   list_all (is_KBytes \<circ> fst) [(KBytes ''spam'', PyBytes ''eggs''), (KBytes ''cow'', PyBytes ''moo'')] \<and>
   list_all (\<lambda>(k, v). constructible v) [(KBytes ''spam'', PyBytes ''eggs''), (KBytes ''cow'', PyBytes ''moo'')] \<and>
   bencode (PyDict [(KBytes ''cow'', PyBytes ''moo''), (KBytes ''spam'', PyBytes ''eggs'')]) []
     = bencode (PyDict [(KBytes ''spam'', PyBytes ''eggs''), (KBytes ''cow'', PyBytes ''moo'')]) [] \<and>
   bencode (PyDict [(KBytes ''spam'', PyBytes ''eggs''), (KBytes ''cow'', PyBytes ''moo'')]) []
     = Inr ''d3:cow3:moo4:spam4:eggse'' \<and>
   (\<exists>items. set items = set [(KBytes ''spam'', PyBytes ''eggs''), (KBytes ''cow'', PyBytes ''moo'')] \<and>
      sorted_wrt (<) (map (un_KBytes \<circ> fst) items) \<and>
      Inr ''d3:cow3:moo4:spam4:eggse''
        = (Inr (''d'' @ concat (map (\<lambda>(k, v). enc (key_val k) @ enc v) items) @ ''e'') :: error + bytes))"
proof -
  let ?a = "[(KBytes ''spam'', PyBytes ''eggs''), (KBytes ''cow'', PyBytes ''moo'')]"
  let ?b = "[(KBytes ''cow'', PyBytes ''moo''), (KBytes ''spam'', PyBytes ''eggs'')]"
  have 1: "distinct (map fst ?a)" by simp
  have 2: "distinct (map fst ?b)" by simp
  have 3: "set ?b = set ?a" by auto
  have 4: "list_all (is_KBytes \<circ> fst) ?a" by simp
  have 5: "bencode (PyDict ?a) [] = Inr ''d3:cow3:moo4:spam4:eggse''" by code_simp
  have 6: "list_all (\<lambda>(k, v). constructible v) ?a" by simp
  note t = bencode_dict_canonical[OF 1 2 3, of "[]"]
  from t have e: "bencode (PyDict ?b) [] = bencode (PyDict ?a) []" by blast
  from t 4 6 obtain items where
    i: "set items = set ?a" "sorted_wrt (<) (map (un_KBytes \<circ> fst) items)"
       "bencode (PyDict ?a) [] =
          Inr ([] @ ''d'' @ concat (map (\<lambda>(k, v). enc (key_val k) @ enc v) items) @ ''e'')"
    by blast
  from i(3) have "Inr ''d3:cow3:moo4:spam4:eggse''
        = (Inr (''d'' @ concat (map (\<lambda>(k, v). enc (key_val k) @ enc v) items) @ ''e'') :: error + bytes)"
    unfolding 5 by simp
  with i(1,2) have x: "\<exists>items. set items = set ?a \<and>
      sorted_wrt (<) (map (un_KBytes \<circ> fst) items) \<and>
      Inr ''d3:cow3:moo4:spam4:eggse''
        = (Inr (''d'' @ concat (map (\<lambda>(k, v). enc (key_val k) @ enc v) items) @ ''e'') :: error + bytes)"
    by blast
  from 1 2 3 4 5 6 e x show ?thesis by (simp del: bencode.simps enc.simps)
qed

section \<open>Claims about the Merkle root\<close>

text \<open>
  C2 (tree mode is the pairwise reduction). On the byte array of any sequence of hashes,
  with any padding value, the loop of the code returns what the reduction of the
  specification returns. With the initial padding of 20 zero bytes: one hash is returned
  unchanged; two hashes give the digest of their concatenation; three hashes give
  \<open>digest (digest (h1 || h2) || digest (h3 || zeros))\<close>; and with five hashes the second
  level is padded with \<open>digest (zeros || zeros)\<close>.
\<close>

theorem merkle_root_is_tree_reduction:
  "fst (merkle_loop sha1 (units_bytes hs) padding rounds) = units_bytes (tree_reduce sha1 hs padding) \<and>
   fst (merkle_loop sha1 (Rep_digest h1) zero_digest 0) = Rep_digest h1 \<and>
   fst (merkle_loop sha1 (Rep_digest h1 @ Rep_digest h2) zero_digest 0)
     = Rep_digest (sha1 (Rep_digest h1 @ Rep_digest h2)) \<and>
   fst (merkle_loop sha1 (Rep_digest h1 @ Rep_digest h2 @ Rep_digest h3) zero_digest 0)
     = Rep_digest (sha1 (Rep_digest (sha1 (Rep_digest h1 @ Rep_digest h2)) @
                         Rep_digest (sha1 (Rep_digest h3 @ replicate 20 (CHR 0x00))))) \<and>
   fst (merkle_loop sha1 (units_bytes [h1, h2, h3, h4, h5]) zero_digest 0)
     = Rep_digest (sha1
         (Rep_digest (sha1 (Rep_digest (sha1 (Rep_digest h1 @ Rep_digest h2)) @
                            Rep_digest (sha1 (Rep_digest h3 @ Rep_digest h4)))) @
          Rep_digest (sha1 (Rep_digest (sha1 (Rep_digest h5 @ replicate 20 (CHR 0x00))) @
                            Rep_digest (sha1 (replicate 20 (CHR 0x00) @ replicate 20 (CHR 0x00)))))))"
proof (intro conjI)
  show "fst (merkle_loop sha1 (units_bytes hs) padding rounds) = units_bytes (tree_reduce sha1 hs padding)"
    by (rule merkle_loop_tree_reduce)
  show "fst (merkle_loop sha1 (Rep_digest h1) zero_digest 0) = Rep_digest h1"
    using merkle_loop_tree_reduce[of sha1 "[h1]" zero_digest 0]
    by (simp add: tree_reduce.simps)
  show "fst (merkle_loop sha1 (Rep_digest h1 @ Rep_digest h2) zero_digest 0)
     = Rep_digest (sha1 (Rep_digest h1 @ Rep_digest h2))"
    using merkle_loop_tree_reduce[of sha1 "[h1, h2]" zero_digest 0]
    by (simp add: tree_reduce.simps)
  show "fst (merkle_loop sha1 (Rep_digest h1 @ Rep_digest h2 @ Rep_digest h3) zero_digest 0)
     = Rep_digest (sha1 (Rep_digest (sha1 (Rep_digest h1 @ Rep_digest h2)) @
                         Rep_digest (sha1 (Rep_digest h3 @ replicate 20 (CHR 0x00)))))"
    using merkle_loop_tree_reduce[of sha1 "[h1, h2, h3]" zero_digest 0]
    by (simp add: tree_reduce.simps Rep_zero_digest)
  show "fst (merkle_loop sha1 (units_bytes [h1, h2, h3, h4, h5]) zero_digest 0)
     = Rep_digest (sha1
         (Rep_digest (sha1 (Rep_digest (sha1 (Rep_digest h1 @ Rep_digest h2)) @
                            Rep_digest (sha1 (Rep_digest h3 @ Rep_digest h4)))) @
          Rep_digest (sha1 (Rep_digest (sha1 (Rep_digest h5 @ replicate 20 (CHR 0x00))) @
                            Rep_digest (sha1 (replicate 20 (CHR 0x00) @ replicate 20 (CHR 0x00)))))))"
    unfolding merkle_loop_tree_reduce
    by (simp add: tree_reduce.simps Rep_zero_digest)
qed

text \<open>
  C9 (the reduction ends with one root). \<open>merkle_loop\<close> is a total function: its termination
  proof shows that the array gets shorter in every round. On an array of \<open>n > 1\<close> units a round
  leaves \<open>(n + 1) div 2\<close> units, fewer than \<open>n\<close>; on any non-empty array of units the result is
  20 bytes long; and on a single unit the array is returned as it is with the round counter
  unchanged, the loop body never having run.
\<close>

theorem merkle_loop_terminates:
  "(length pieces = 20 * n \<and> 1 < n \<longrightarrow>
      (\<exists>pieces'. length pieces' = 20 * ((n + 1) div 2) \<and> (n + 1) div 2 < n \<and>
         merkle_loop sha1 pieces padding rounds
           = merkle_loop sha1 pieces' (sha1 (Rep_digest padding @ Rep_digest padding)) (Suc rounds))) \<and>
   (length pieces = 20 * n \<and> 0 < n \<longrightarrow>
      length (fst (merkle_loop sha1 pieces padding rounds)) = 20) \<and>
   (length pieces = 20 \<longrightarrow> merkle_loop sha1 pieces padding rounds = (pieces, rounds))"
proof (intro conjI impI)
  assume "length pieces = 20 * n \<and> 1 < n"
  then show "\<exists>pieces'. length pieces' = 20 * ((n + 1) div 2) \<and> (n + 1) div 2 < n \<and>
         merkle_loop sha1 pieces padding rounds
           = merkle_loop sha1 pieces' (sha1 (Rep_digest padding @ Rep_digest padding)) (Suc rounds)"
    using merkle_loop_round by blast
next
  assume "length pieces = 20 * n \<and> 0 < n"
  then show "length (fst (merkle_loop sha1 pieces padding rounds)) = 20"
    using merkle_loop_root_length by blast
next
  assume "length pieces = 20"
  then show "merkle_loop sha1 pieces padding rounds = (pieces, rounds)"
    by (subst merkle_loop.simps) simp
qed

theorem merkle_loop_terminates_witness:
  "length (replicate 60 (CHR ''a'')) = 20 * 3 \<and> (1 :: nat) < 3 \<and>
   (\<exists>pieces'. length pieces' = 20 * ((3 + 1) div 2) \<and> ((3 :: nat) + 1) div 2 < 3 \<and>
      merkle_loop sample_sha1 (replicate 60 (CHR ''a'')) zero_digest 0
        = merkle_loop sample_sha1 pieces'
            (sample_sha1 (Rep_digest zero_digest @ Rep_digest zero_digest)) (Suc 0)) \<and>
   length (fst (merkle_loop sample_sha1 (replicate 60 (CHR ''a'')) zero_digest 0)) = 20 \<and>
   length (replicate 20 (CHR ''a'')) = 20 \<and>
   merkle_loop sample_sha1 (replicate 20 (CHR ''a'')) zero_digest 0 = (replicate 20 (CHR ''a''), 0)"
proof -
  have a: "length (replicate 60 (CHR ''a'')) = 20 * 3 \<and> (1 :: nat) < 3" by simp
  have b: "length (replicate 60 (CHR ''a'')) = 20 * 3 \<and> (0 :: nat) < 3" by simp
  have c: "length (replicate 20 (CHR ''a'')) = 20" by simp
  from merkle_loop_terminates[of "replicate 60 (CHR ''a'')" 3 sample_sha1 zero_digest 0]
    merkle_loop_terminates[of "replicate 20 (CHR ''a'')" 1 sample_sha1 zero_digest 0] a b c
  show ?thesis by blast
qed

section \<open>Claims about the chunk hasher\<close>

text \<open>
  C3 (chunking). For a positive piece length \<open>L\<close>, the pieces computed for a readable file
  are the digests of the windows of its bytes, and the pieces computed for a directory whose
  files are all readable are the digests of the windows of the concatenation of the files in
  traversal order, so that a window may run from one file into the next. There are as many
  windows as the length divided by \<open>L\<close>, rounded up, and none is empty: \<open>3 * L\<close> bytes give 3
  windows, \<open>3 * L + 1\<close> bytes give 4 with a last one of 1 byte, and two files of \<open>L div 2\<close>
  bytes each (\<open>L \<ge> 2\<close>) give the single window made of both.
\<close>

theorem chunk_hasher_windows:
  assumes "0 < opt_piece_length opts"
  shows
    "(w_fs w filename = Some (FileNode (RegFile c True)) \<longrightarrow>
        (\<exists>info'. hash_content w filename opts info
           = Inr (info', digests (w_sha1 w) (spec_windows (nat (opt_piece_length opts)) c)))) \<and>
     (w_fs w filename = Some (DirNode walk) \<and> (\<forall>(relpath, fl) \<in> set walk. readable fl) \<longrightarrow>
        (\<exists>info'. hash_content w filename opts info
           = Inr (info', digests (w_sha1 w)
                   (spec_windows (nat (opt_piece_length opts)) (walk_stream walk))))) \<and>
     length (spec_windows (nat (opt_piece_length opts)) s)
       = (length s + nat (opt_piece_length opts) - 1) div nat (opt_piece_length opts) \<and>
     [] \<notin> set (spec_windows (nat (opt_piece_length opts)) s) \<and>
     (length s = 3 * nat (opt_piece_length opts) \<longrightarrow>
        length (spec_windows (nat (opt_piece_length opts)) s) = 3) \<and>
     (length s = 3 * nat (opt_piece_length opts) + 1 \<longrightarrow>
        length (spec_windows (nat (opt_piece_length opts)) s) = 4 \<and>
        length (last (spec_windows (nat (opt_piece_length opts)) s)) = 1) \<and>
     (2 \<le> opt_piece_length opts \<and> length a = nat (opt_piece_length opts) div 2 \<and>
      length b = nat (opt_piece_length opts) div 2 \<longrightarrow>
        spec_windows (nat (opt_piece_length opts))
          (walk_stream [(pa, RegFile a True), (pb, RegFile b True)]) = [a @ b])"
proof -
  let ?L = "opt_piece_length opts" and ?n = "nat (opt_piece_length opts)"
  have n: "0 < ?n" using assms by simp
  have single: "\<exists>info'. hash_content w filename opts info
           = Inr (info', digests (w_sha1 w) (spec_windows ?n c))"
    if "w_fs w filename = Some (FileNode (RegFile c True))"
    using that hash_single_file_windows[OF assms, of "w_sha1 w" c "[]"]
    by (simp add: hash_content_def)
  have dir: "\<exists>info'. hash_content w filename opts info
           = Inr (info', digests (w_sha1 w) (spec_windows ?n (walk_stream walk)))"
    if fs: "w_fs w filename = Some (DirNode walk)" and rd: "\<forall>(relpath, fl) \<in> set walk. readable fl"
  proof -
    have "int (length ([] :: bytes)) < ?L" using assms by simp
    from hash_dir_windows[OF assms this rd, of "w_sha1 w" "w_md5_hexdigest w" "opt_md5sum opts" "[]" "[]"]
    obtain files' where h: "hash_dir (w_sha1 w) (w_md5_hexdigest w) ?L (opt_md5sum opts) walk [] [] []
        = Inr (files', [] @ digests (w_sha1 w) (spec_windows ?n (whole ?n ([] @ walk_stream walk))),
               remainder ?n ([] @ walk_stream walk))"
      by blast
    show ?thesis
    proof (cases "remainder ?n (walk_stream walk) = []")
      case True
      with fs h digests_whole_remainder[OF n, of "walk_stream walk" "[]" "w_sha1 w"]
      show ?thesis by (simp add: hash_content_def)
    next
      case False
      with fs h digests_whole_remainder[OF n, of "walk_stream walk" "[]" "w_sha1 w"]
      show ?thesis by (simp add: hash_content_def)
    qed
  qed
  have three: "length (spec_windows ?n s) = 3" if "length s = 3 * ?n"
    using spec_windows_3[OF n that] by simp
  have four: "length (spec_windows ?n s) = 4 \<and> length (last (spec_windows ?n s)) = 1"
    if "length s = 3 * ?n + 1"
    using spec_windows_3_1[OF n that] that by simp
  have two: "spec_windows ?n (walk_stream [(pa, RegFile a True), (pb, RegFile b True)]) = [a @ b]"
    if "2 \<le> ?L \<and> length a = ?n div 2 \<and> length b = ?n div 2"
  proof -
    from that have "a @ b \<noteq> []" "length (a @ b) \<le> ?n" by auto
    with spec_windows_short[OF n, of "a @ b"] show ?thesis by (simp add: walk_stream_def)
  qed
  from single dir three four two spec_windows_length[OF n, of s] spec_windows_nonempty[of ?n s]
  show ?thesis by blast
qed

theorem chunk_hasher_windows_witness:
  "0 < opt_piece_length (default_options\<lparr>opt_piece_length := 4\<rparr>) \<and>
   w_fs (sample_world [''f'' \<mapsto> FileNode (RegFile ''abcdefghi'' True)]) ''f''
     = Some (FileNode (RegFile ''abcdefghi'' True)) \<and>
   (\<exists>info'. hash_content (sample_world [''f'' \<mapsto> FileNode (RegFile ''abcdefghi'' True)]) ''f''
               (default_options\<lparr>opt_piece_length := 4\<rparr>) []
      = Inr (info', digests sample_sha1 (spec_windows 4 ''abcdefghi''))) \<and>
   length ''abcdefghijklm'' = 3 * nat 4 + 1 \<and>
   length (spec_windows 4 ''abcdefghijklm'') = 4 \<and>
   length (last (spec_windows 4 ''abcdefghijklm'')) = 1 \<and>
   length ''ab'' = nat 4 div 2 \<and> length ''cd'' = nat 4 div 2 \<and>
   spec_windows 4 (walk_stream [([''x''], RegFile ''ab'' True), ([''y''], RegFile ''cd'' True)]) = [''abcd'']"
proof -
  let ?o = "default_options\<lparr>opt_piece_length := 4\<rparr>"
  let ?w = "sample_world [''f'' \<mapsto> FileNode (RegFile ''abcdefghi'' True)]"
  have p: "0 < opt_piece_length ?o" by simp
  have n: "nat (opt_piece_length ?o) = 4" by simp
  have fs: "w_fs ?w ''f'' = Some (FileNode (RegFile ''abcdefghi'' True))"
    by (simp add: sample_world_def)
  have s: "w_sha1 ?w = sample_sha1" by (simp add: sample_world_def)
  have l: "length ''abcdefghijklm'' = 3 * nat 4 + 1" by simp
  have ab: "(2 :: int) \<le> 4 \<and> length ''ab'' = nat 4 div 2 \<and> length ''cd'' = nat 4 div 2" by simp
  from chunk_hasher_windows[OF p, of ?w "''f''" "''abcdefghi''" "[]" _ "''abcdefghijklm''"
      "''ab''" "''cd''" "[''x'']" "[''y'']"] fs l ab
  show ?thesis unfolding n s by simp
qed

section \<open>Claims about the identifier\<close>

text \<open>
  C4 (the identifier is the digest of the info dict alone). For a metainfo \<open>m\<close> that
  \<^verbatim>\<open>Metainfo\<close> built, the \<^verbatim>\<open>info\<close> dict has an encoding \<open>b\<close> and \<^verbatim>\<open>infohash\<close> returns the
  hexadecimal digest of \<open>b\<close> and keeps it. A second metainfo built from the same files with
  the same piece length and the same \<^verbatim>\<open>private\<close>, \<^verbatim>\<open>md5sum\<close> and \<^verbatim>\<open>merkle\<close> options has
  the same identifier, whatever its trackers, nodes, seeds, comment and creation date. A
  metainfo built with another positive piece length has another \<^verbatim>\<open>info\<close> encoding, and so
  another identifier unless the two encodings collide under the digest.
\<close>

theorem infohash_is_digest_of_info:
  assumes "Metainfo w filename opts = Inr m"
  shows
   "(\<exists>b. bencode (PyDict (mi_info m)) [] = Inr b \<and>
         infohash (w_sha1 w) m
           = Inr (hexlify (Rep_digest (w_sha1 w b)),
                  m\<lparr>mi_infohash := Some (hexlify (Rep_digest (w_sha1 w b)))\<rparr>)) \<and>
    (Metainfo w' filename opts' = Inr m' \<and> w_sha1 w' = w_sha1 w \<and>
     w_md5_hexdigest w' = w_md5_hexdigest w \<and> w_basename_normpath w' = w_basename_normpath w \<and>
     w_fs w' = w_fs w \<and> opt_piece_length opts' = opt_piece_length opts \<and>
     opt_private opts' = opt_private opts \<and> opt_md5sum opts' = opt_md5sum opts \<and>
     opt_merkle opts' = opt_merkle opts
       \<longrightarrow> info_identifier (w_sha1 w') m' = info_identifier (w_sha1 w) m) \<and>
    (Metainfo w filename (opts\<lparr>opt_piece_length := L\<rparr>) = Inr m'' \<and>
     0 < opt_piece_length opts \<and> 0 < L \<and> L \<noteq> opt_piece_length opts \<and>
     bencode (PyDict (mi_info m)) [] = Inr b \<and> bencode (PyDict (mi_info m'')) [] = Inr b'' \<and>
     (w_sha1 w b'' = w_sha1 w b \<longrightarrow> b'' = b)
       \<longrightarrow> info_identifier (w_sha1 w) m'' \<noteq> info_identifier (w_sha1 w) m)"
proof (intro conjI impI)
  note bi = Metainfo_info[OF assms]
  note c = build_info_props(1)[OF bi(1)]
  have e: "bencode (PyDict (mi_info m)) [] = Inr (enc (PyDict (mi_info m)))"
    by (rule bencode_enc[OF c])
  have ih: "infohash (w_sha1 w) m
      = Inr (hexlify (Rep_digest (w_sha1 w (enc (PyDict (mi_info m))))),
             m\<lparr>mi_infohash := Some (hexlify (Rep_digest (w_sha1 w (enc (PyDict (mi_info m))))))\<rparr>)"
    unfolding infohash_def bi(2) e by (simp add: truthy_def Let_def)
  from e ih show "\<exists>b. bencode (PyDict (mi_info m)) [] = Inr b \<and>
         infohash (w_sha1 w) m
           = Inr (hexlify (Rep_digest (w_sha1 w b)),
                  m\<lparr>mi_infohash := Some (hexlify (Rep_digest (w_sha1 w b)))\<rparr>)"
    by blast
  have id: "info_identifier (w_sha1 w) m = Inr (hexlify (Rep_digest (w_sha1 w (enc (PyDict (mi_info m))))))"
    by (simp add: info_identifier_def ih)
  {
    assume a: "Metainfo w' filename opts' = Inr m' \<and> w_sha1 w' = w_sha1 w \<and>
     w_md5_hexdigest w' = w_md5_hexdigest w \<and> w_basename_normpath w' = w_basename_normpath w \<and>
     w_fs w' = w_fs w \<and> opt_piece_length opts' = opt_piece_length opts \<and>
     opt_private opts' = opt_private opts \<and> opt_md5sum opts' = opt_md5sum opts \<and>
     opt_merkle opts' = opt_merkle opts"
    then have m': "Metainfo w' filename opts' = Inr m'" by blast
    note bi' = Metainfo_info[OF m']
    from a have "build_info w' filename opts' = build_info w filename opts"
      by (intro build_info_independent) blast+
    with bi(1) bi'(1) have same: "mi_info m' = mi_info m" by simp
    have "infohash (w_sha1 w') m'
      = Inr (hexlify (Rep_digest (w_sha1 w' (enc (PyDict (mi_info m'))))),
             m'\<lparr>mi_infohash := Some (hexlify (Rep_digest (w_sha1 w' (enc (PyDict (mi_info m'))))))\<rparr>)"
      unfolding infohash_def bi'(2) bencode_enc[OF build_info_props(1)[OF bi'(1)]]
      by (simp add: truthy_def Let_def)
    then have "info_identifier (w_sha1 w') m' = Inr (hexlify (Rep_digest (w_sha1 w' (enc (PyDict (mi_info m'))))))"
      by (simp add: info_identifier_def)
    with id same a show "info_identifier (w_sha1 w') m' = info_identifier (w_sha1 w) m"
      by simp
  }
  {
    assume a: "Metainfo w filename (opts\<lparr>opt_piece_length := L\<rparr>) = Inr m'' \<and>
     0 < opt_piece_length opts \<and> 0 < L \<and> L \<noteq> opt_piece_length opts \<and>
     bencode (PyDict (mi_info m)) [] = Inr b \<and> bencode (PyDict (mi_info m'')) [] = Inr b'' \<and>
     (w_sha1 w b'' = w_sha1 w b \<longrightarrow> b'' = b)"
    then have m'': "Metainfo w filename (opts\<lparr>opt_piece_length := L\<rparr>) = Inr m''" by blast
    note bi'' = Metainfo_info[OF m'']
    note c'' = build_info_props(1)[OF bi''(1)]
    have n: "nonneg (PyDict (mi_info m))" using build_info_props(2)[OF bi(1)] a by simp
    have n'': "nonneg (PyDict (mi_info m''))" using build_info_props(2)[OF bi''(1)] a by simp
    have l: "map_of (mi_info m) (KBytes ''piece length'') = Some (PyInt (opt_piece_length opts))"
      by (rule build_info_props(3)[OF bi(1)])
    have l'': "map_of (mi_info m'') (KBytes ''piece length'') = Some (PyInt L)"
      using build_info_props(3)[OF bi''(1)] by simp
    have ne: "enc (PyDict (mi_info m'')) \<noteq> enc (PyDict (mi_info m))"
    proof
      assume "enc (PyDict (mi_info m'')) = enc (PyDict (mi_info m))"
      from enc_dict_inj_lookup[OF c'' n'' c n this, of "KBytes ''piece length''"] l l'' a
      show False by simp
    qed
    from a e bencode_enc[OF c''] have b: "b = enc (PyDict (mi_info m))"
      and b'': "b'' = enc (PyDict (mi_info m''))" by simp_all
    from a ne b b'' have "w_sha1 w b'' \<noteq> w_sha1 w b" by blast
    then have "hexlify (Rep_digest (w_sha1 w b'')) \<noteq> hexlify (Rep_digest (w_sha1 w b))"
      using hexlify_inj Rep_digest_inject by blast
    moreover have "infohash (w_sha1 w) m''
      = Inr (hexlify (Rep_digest (w_sha1 w (enc (PyDict (mi_info m''))))),
             m''\<lparr>mi_infohash := Some (hexlify (Rep_digest (w_sha1 w (enc (PyDict (mi_info m''))))))\<rparr>)"
      unfolding infohash_def bi''(2) bencode_enc[OF c''] by (simp add: truthy_def Let_def)
    then have "info_identifier (w_sha1 w) m'' = Inr (hexlify (Rep_digest (w_sha1 w b'')))"
      by (simp add: info_identifier_def b'')
    ultimately show "info_identifier (w_sha1 w) m'' \<noteq> info_identifier (w_sha1 w) m"
      using id b by simp
  }
qed

theorem infohash_is_digest_of_info_witness:
  "\<exists>m m' m'' b b''.
     Metainfo (sample_world demo_fs) ''f'' (default_options\<lparr>opt_piece_length := 4\<rparr>) = Inr m \<and>
     Metainfo ((sample_world demo_fs)\<lparr>w_time := 99\<rparr>) ''f''
       (default_options\<lparr>opt_piece_length := 4, opt_comment := Some ''hi'',
          opt_announce := Some [[''http://t/announce'']]\<rparr>) = Inr m' \<and>
     Metainfo (sample_world demo_fs) ''f''
       ((default_options\<lparr>opt_piece_length := 4\<rparr>)\<lparr>opt_piece_length := 3\<rparr>) = Inr m'' \<and>
     (0 :: int) < 4 \<and> (0 :: int) < 3 \<and> (3 :: int) \<noteq> 4 \<and>
     bencode (PyDict (mi_info m)) [] = Inr b \<and> bencode (PyDict (mi_info m'')) [] = Inr b'' \<and>
     sample_sha1 b'' \<noteq> sample_sha1 b \<and>
     mi_announce m' \<noteq> mi_announce m \<and>
     infohash sample_sha1 m
       = Inr (hexlify (Rep_digest (sample_sha1 b)),
              m\<lparr>mi_infohash := Some (hexlify (Rep_digest (sample_sha1 b)))\<rparr>) \<and>
     info_identifier sample_sha1 m' = info_identifier sample_sha1 m \<and>
     info_identifier sample_sha1 m'' \<noteq> info_identifier sample_sha1 m"
proof -
  let ?w = "sample_world demo_fs" and ?o = "default_options\<lparr>opt_piece_length := 4\<rparr>"
  let ?w' = "(sample_world demo_fs)\<lparr>w_time := 99\<rparr>"
  let ?o' = "default_options\<lparr>opt_piece_length := 4, opt_comment := Some ''hi'',
          opt_announce := Some [[''http://t/announce'']]\<rparr>"
  let ?o'' = "?o\<lparr>opt_piece_length := 3\<rparr>"
  let ?b = "''d6:lengthi10e4:name1:f12:piece lengthi4e6:pieces60:dcba................hgfe................ji..................e''"
  let ?b'' = "''d6:lengthi10e4:name1:f12:piece lengthi3e6:pieces80:cba.................fed.................ihg.................j...................e''"
  have o'': "?o'' = default_options\<lparr>opt_piece_length := 3\<rparr>" by simp
  have "\<exists>self. build_top (w_time ?w) ?o = Inr self"
    by (simp add: build_top_def set_announce_def default_options_def)
  then obtain m where m: "Metainfo ?w ''f'' ?o = Inr m"
    using Metainfo_ok[OF _ demo_build_info_4] by blast
  have bi': "build_info ?w' ''f'' ?o' = build_info ?w ''f'' ?o"
    by (rule build_info_independent) (simp_all add: sample_world_def default_options_def)
  have "\<exists>self. build_top (w_time ?w') ?o' = Inr self"
    by (simp add: build_top_def set_announce_def default_options_def)
  then obtain m' where m': "Metainfo ?w' ''f'' ?o' = Inr m'"
    using Metainfo_ok[OF _ bi'[unfolded demo_build_info_4]] by blast
  have "\<exists>self. build_top (w_time ?w) (default_options\<lparr>opt_piece_length := 3\<rparr>) = Inr self"
    by (simp add: build_top_def set_announce_def default_options_def)
  then obtain m'' where m'': "Metainfo ?w ''f'' ?o'' = Inr m''"
    unfolding o'' using Metainfo_ok[OF _ demo_build_info_3] by blast
  from Metainfo_info(1)[OF m] demo_build_info_4 demo_bencode_4
  have b: "bencode (PyDict (mi_info m)) [] = Inr ?b" by simp
  from Metainfo_info(1)[OF m''] demo_build_info_3 demo_bencode_3
  have b'': "bencode (PyDict (mi_info m'')) [] = Inr ?b''" unfolding o'' by simp
  have "Rep_digest (sample_sha1 ?b'') \<noteq> Rep_digest (sample_sha1 ?b)"
    by (simp add: sample_sha1.rep_eq)
  then have ne: "sample_sha1 ?b'' \<noteq> sample_sha1 ?b" by auto
  have s: "w_sha1 ?w = sample_sha1" "w_sha1 ?w' = sample_sha1" by (simp_all add: sample_world_def)
  have an: "mi_announce m' \<noteq> mi_announce m"
    using m m' by (auto simp: Metainfo_def default_options_def split: sum.splits)
  have same: "w_sha1 ?w' = w_sha1 ?w \<and> w_md5_hexdigest ?w' = w_md5_hexdigest ?w \<and>
     w_basename_normpath ?w' = w_basename_normpath ?w \<and> w_fs ?w' = w_fs ?w \<and>
     opt_piece_length ?o' = opt_piece_length ?o \<and> opt_private ?o' = opt_private ?o \<and>
     opt_md5sum ?o' = opt_md5sum ?o \<and> opt_merkle ?o' = opt_merkle ?o"
    by (simp add: sample_world_def default_options_def)
  have pl: "opt_piece_length ?o = 4" by simp
  from infohash_is_digest_of_info[OF m, of ?w' ?o' m' 3 m'' ?b ?b''] m' m'' b b'' ne same
  have "infohash sample_sha1 m
       = Inr (hexlify (Rep_digest (sample_sha1 ?b)),
              m\<lparr>mi_infohash := Some (hexlify (Rep_digest (sample_sha1 ?b)))\<rparr>) \<and>
     info_identifier sample_sha1 m' = info_identifier sample_sha1 m \<and>
     info_identifier sample_sha1 m'' \<noteq> info_identifier sample_sha1 m"
    unfolding s pl by auto
  with m m' m'' b b'' ne an show ?thesis by (intro exI[of _ m] exI[of _ m'] exI[of _ m''] exI[of _ ?b] exI[of _ ?b'']) simp
qed

section \<open>Claims about the command line\<close>

text \<open>
  C6, as stated (an error that aborts the build leaves the destination unchanged, and no empty
  artifact is written), fails: \<^verbatim>\<open>main\<close> opens the destination for writing before it builds
  the metainfo. With a source file that cannot be read and an older torrent at the
  destination, the build raises \<^verbatim>\<open>OSError\<close> and the destination is left as an empty file.
\<close>

theorem main_write_truncates_on_error:
  "w_fs (sample_world unreadable_fs) ''f.torrent'' = Some (FileNode (RegFile ''an older torrent'' True)) \<and>
   snd (main_write (sample_world unreadable_fs) ''f'' None default_options) = Inl OSError \<and>
   fst (main_write (sample_world unreadable_fs) ''f'' None default_options) ''f.torrent''
     = Some (FileNode (RegFile [] True))"
  by (simp add: main_write_def Metainfo_def build_top_def set_announce_def set_optional_def
      build_info_def hash_content_def info_head_def open_wb_def truthy_def rstrip_def os_sep_def
      sample_world_def unreadable_fs_def default_options_def Let_def)

text \<open>
  C6, amended. Whatever the run of \<^verbatim>\<open>main\<close> returns, every other path that names a regular
  file or nothing is as before. When the run succeeds, the metainfo has an encoding and the
  destination holds exactly that encoding, written by the one call of \<^verbatim>\<open>write\<close>. When it
  raises, either \<^verbatim>\<open>open\<close> itself raised and nothing has changed, or the destination is an
  empty file: no byte of a torrent has been written, but the previous content is lost.
\<close>

theorem main_write_all_or_empty:
  assumes "main_write w filename output func_args = (fs', r)"
  shows "(\<forall>p. p \<noteq> infoname_of filename output \<longrightarrow> (\<forall>walk. w_fs w p \<noteq> Some (DirNode walk))
            \<longrightarrow> fs' p = w_fs w p) \<and>
         (case r of
            Inr metainfo \<Rightarrow>
              (\<exists>b rd. bencode (PyDict (mi_items metainfo)) [] = Inr b \<and>
                 fs' (infoname_of filename output) = Some (FileNode (RegFile b rd)))
          | Inl e \<Rightarrow>
              (open_wb (w_fs w) (infoname_of filename output) = Inl e \<and> fs' = w_fs w) \<or>
              (\<exists>rd. fs' (infoname_of filename output) = Some (FileNode (RegFile [] rd))))"
proof -
  let ?n = "infoname_of filename output"
  note m = assms[unfolded main_write_unfold]
  from open_wb_cases[OF refl, of "w_fs w" ?n]
  show ?thesis
  proof
    assume a: "open_wb (w_fs w) ?n = Inl OSError \<and> (\<exists>walk. w_fs w ?n = Some (DirNode walk))"
    with m have "fs' = w_fs w" "r = Inl OSError" by simp_all
    with a show ?thesis by simp
  next
    assume "\<exists>rd. open_wb (w_fs w) ?n = Inr ((w_fs w)(?n \<mapsto> FileNode (RegFile [] rd)))"
    then obtain rd where o: "open_wb (w_fs w) ?n = Inr ((w_fs w)(?n \<mapsto> FileNode (RegFile [] rd)))"
      by blast
    let ?fs1 = "(w_fs w)(?n \<mapsto> FileNode (RegFile [] rd))"
    show ?thesis
    proof (cases "Metainfo (w\<lparr>w_fs := ?fs1\<rparr>) filename func_args")
      case (Inl e)
      with m o have "fs' = ?fs1" "r = Inl e" by simp_all
      then show ?thesis by simp
    next
      case (Inr metainfo)
      show ?thesis
      proof (cases "bencode (PyDict (mi_items metainfo)) []")
        case (Inl e)
        with m o Inr have "fs' = ?fs1" "r = Inl e" by simp_all
        then show ?thesis by simp
      next
        case b: (Inr b)
        with m o Inr have "fs' = file_write ?fs1 ?n b" "r = Inr metainfo" by simp_all
        with b show ?thesis by (simp add: file_write_def)
      qed
    qed
  qed
qed

theorem main_write_all_or_empty_witness:
  "main_write (sample_world demo_fs) ''f'' None demo_options
     = (fst (main_write (sample_world demo_fs) ''f'' None demo_options),
        snd (main_write (sample_world demo_fs) ''f'' None demo_options)) \<and>
   fst (main_write (sample_world demo_fs) ''f'' None demo_options) ''f''
     = Some (FileNode (RegFile ''abcdefghij'' True)) \<and>
   (\<exists>rd. fst (main_write (sample_world demo_fs) ''f'' None demo_options) ''f.torrent''
     = Some (FileNode (RegFile demo_torrent rd)))"
proof -
  let ?r = "main_write (sample_world demo_fs) ''f'' None demo_options"
  have n: "infoname_of ''f'' None = ''f.torrent''"
    by (simp add: infoname_of_def truthy_def rstrip_def os_sep_def)
  from demo_main_result obtain m where m: "snd ?r = Inr m" "mi_items m = demo_items"
    by blast
  note t = main_write_all_or_empty[of "sample_world demo_fs" "''f''" None demo_options
      "fst ?r" "snd ?r", unfolded n m(1)]
  have c: "?r = (fst ?r, Inr m)" using m(1) by (simp add: prod_eq_iff)
  from t[OF c] have 1: "\<forall>p. p \<noteq> ''f.torrent'' \<longrightarrow>
        (\<forall>walk. w_fs (sample_world demo_fs) p \<noteq> Some (DirNode walk)) \<longrightarrow>
        fst ?r p = w_fs (sample_world demo_fs) p"
    and 2: "\<exists>b rd. bencode (PyDict (mi_items m)) [] = Inr b \<and>
              fst ?r ''f.torrent'' = Some (FileNode (RegFile b rd))"
    by simp_all
  from 1[rule_format, of "''f''"]
  have "fst ?r ''f'' = Some (FileNode (RegFile ''abcdefghij'' True))"
    by (simp add: sample_world_def demo_fs_def)
  moreover from 2 have "\<exists>rd. fst ?r ''f.torrent'' = Some (FileNode (RegFile demo_torrent rd))"
    by (simp add: m(2) demo_bencode_items del: bencode.simps)
  ultimately show ?thesis by simp
qed

end
